theory Spec2Isabelle
  imports Main "HOL-Library.Word"
begin

section \<open>Data model\<close>

text \<open>
  The chess module (\<^verbatim>\<open>position.h\<close>, \<^verbatim>\<open>gen.h\<close>) is a collaborator of the two
  files verified here. Its types are taken as follows: a move (\<^verbatim>\<open>move_t\<close>) is a
  number, 0 being "no move"; the 32-bit \<^verbatim>\<open>int\<close> of scores and options is a
  \<open>32 word\<close> read as two's complement; counters that only count up from 0 (the ply, the
  50-move counter) are natural numbers.
\<close>

type_synonym move_t = nat
type_synonym int32 = "32 word"

definition INT_MAX :: int32 where
  "INT_MAX = 2147483647"

definition INT_MIN :: int32 where
  "INT_MIN = - 2147483648"

datatype color = WHITE | BLACK

text \<open>
  The fields of \<^verbatim>\<open>Position\<close> that game.c reads, and \<open>board\<close> for the rest of the
  struct (piece placement, castling rights, ...), which only the chess module looks at.
\<close>

record 'b Position =
  turn :: color
  rule50 :: nat
  checkers :: "64 word"
  key :: "64 word"
  lastMove :: move_t
  fullMove :: nat
  board :: 'b

text \<open>
  The operations of the chess module that game.c calls. They are parameters of every
  function below: nothing is assumed about them.
\<close>

record 'b Chess =
  gen_all_moves :: "'b Position \<Rightarrow> move_t list"
  pos_insufficient_material :: "'b Position \<Rightarrow> bool"
  pos_move :: "'b Position \<Rightarrow> move_t \<Rightarrow> 'b Position"
  pos_get :: "'b Position \<Rightarrow> string"
  pos_set :: "string \<Rightarrow> 'b Position"
  pos_move_to_lan :: "'b Position \<Rightarrow> move_t \<Rightarrow> bool \<Rightarrow> string"
  pos_lan_to_move :: "'b Position \<Rightarrow> string \<Rightarrow> bool \<Rightarrow> move_t"

text \<open>
  Modelled from the spec: the \<^verbatim>\<open>RESULT_\<close> enumeration, whose declaring header is not
  among the sources (game.h there declares the \<^verbatim>\<open>STATE_\<close> names of a later revision).
  The variants are those of the spec's result tag; \<^verbatim>\<open>RESULT_NONE\<close> is the one that is
  zero, as \<^verbatim>\<open>assert(g->result)\<close> and the test of the assignment in game_play need.
  game.c itself never mentions \<^verbatim>\<open>RESULT_TIME_LOSS\<close>.
\<close>

datatype result =
    RESULT_NONE
  | RESULT_CHECKMATE
  | RESULT_STALEMATE
  | RESULT_THREEFOLD
  | RESULT_FIFTY_MOVES
  | RESULT_INSUFFICIENT_MATERIAL
  | RESULT_ILLEGAL_MOVE
  | RESULT_TIME_LOSS
  | RESULT_DRAW_ADJUDICATION
  | RESULT_RESIGN

text \<open>
  \<^verbatim>\<open>GameOptions\<close>, with the fields game.c reads. The two-element arrays are pairs,
  indexed by \<open>at2\<close>.
\<close>

record GameOptions =
  chess960 :: bool
  nodes :: "64 word \<times> 64 word"
  depth :: "int32 \<times> int32"
  movetime :: "int32 \<times> int32"
  drawCount :: int32
  drawScore :: int32
  resignCount :: int32
  resignScore :: int32

definition at2 :: "'a \<times> 'a \<Rightarrow> nat \<Rightarrow> 'a" where
  "at2 a i = (if i = 0 then fst a else snd a)"

definition set2 :: "'a \<times> 'a \<Rightarrow> nat \<Rightarrow> 'a \<Rightarrow> 'a \<times> 'a" where
  "set2 a i v = (if i = 0 then (v, snd a) else (fst a, v))"

text \<open>
  \<^verbatim>\<open>Game\<close>. The buffer \<^verbatim>\<open>g->pos\<close> is the list of its initialised slots: slot \<open>i\<close>
  has been written exactly when \<open>i < length (pos g)\<close>. \<open>names\<close> is
  (\<^verbatim>\<open>names[WHITE]\<close>, \<^verbatim>\<open>names[BLACK]\<close>).
\<close>

record 'b Game =
  names :: "string \<times> string"
  pos :: "'b Position list"
  ply :: nat
  maxPly :: nat
  result :: result
  go :: GameOptions

text \<open>
  Ways in which a call does not return: \<^verbatim>\<open>die()\<close> with its message, a failed
  \<^verbatim>\<open>assert\<close>, a read of a buffer slot that was never written (C gives no value to
  it), and a write beyond the \<open>maxPly\<close> slots of the buffer.
\<close>

datatype error = Die string | Assert_failed | Bad_read | Bad_write

definition bind_err :: "error + 'a \<Rightarrow> ('a \<Rightarrow> error + 'b) \<Rightarrow> error + 'b" where
  "bind_err m f = (case m of Inl e \<Rightarrow> Inl e | Inr x \<Rightarrow> f x)"

text \<open>
  An engine, as engine.c sees it: its name, the lines its process will still deliver on
  \<^verbatim>\<open>e->in\<close>, and the log (\<open>None\<close> for \<^verbatim>\<open>e->log == NULL\<close>). \<open>trace\<close> records the
  lines exchanged on the two streams so far, in order. A read at the end of \<open>inp\<close> is the
  end of the stream; \<open>out_ok\<close> and \<open>log_ok\<close> say whether writes to \<^verbatim>\<open>e->out\<close> and to the
  log succeed.
\<close>

datatype event = Sent string | Received string

record Engine =
  name :: string
  inp :: "string list"
  trace :: "event list"
  out_ok :: bool
  log :: "string list option"
  log_ok :: bool

section \<open>game.c: termination by the rules of chess\<close>

text \<open>
  The loop of game_result that scans for repetitions:
  \<^verbatim>\<open>for (int i = 4; i <= pos->rule50 && i <= g->ply; i += 2)
    if (g->pos[g->ply - i].key == pos->key && ++repetitions >= 3) return RESULT_THREEFOLD;\<close>
  \<open>scan_repetitions g p i reps\<close> is the loop entered with the counters \<open>i\<close> and
  \<open>repetitions = reps\<close>; it is \<open>True\<close> when the loop returns \<^verbatim>\<open>RESULT_THREEFOLD\<close>.
\<close>

function scan_repetitions :: "'b Game \<Rightarrow> 'b Position \<Rightarrow> nat \<Rightarrow> nat \<Rightarrow> bool" where
  "scan_repetitions g p i reps =
     (if i \<le> rule50 p \<and> i \<le> ply g then
        (if key (pos g ! (ply g - i)) = key p then
           (if 3 \<le> reps + 1 then True else scan_repetitions g p (i + 2) (reps + 1))
         else scan_repetitions g p (i + 2) reps)
      else False)"
  by pat_completeness auto
termination
  by (relation "measure (\<lambda>(g, p, i, reps). Suc (ply g) - i)") auto

declare scan_repetitions.simps [simp del]

text \<open>
  game_result returns the result and the legal moves it generated (\<^verbatim>\<open>begin\<close> ..
  \<^verbatim>\<open>*end\<close>). It reads slot \<^verbatim>\<open>g->ply\<close> and, in the scan, earlier slots only.
\<close>

definition game_result :: "'b Chess \<Rightarrow> 'b Game \<Rightarrow> error + (result \<times> move_t list)" where
  "game_result ch g =
     (if length (pos g) \<le> ply g then Inl Bad_read
      else
        let p = pos g ! ply g;
            moves = gen_all_moves ch p
        in if moves = [] then
             Inr (if checkers p \<noteq> 0 then RESULT_CHECKMATE else RESULT_STALEMATE, moves)
           else if 100 \<le> rule50 p then
             (if rule50 p = 100 then Inr (RESULT_FIFTY_MOVES, moves) else Inl Assert_failed)
           else if pos_insufficient_material ch p then
             Inr (RESULT_INSUFFICIENT_MATERIAL, moves)
           else if scan_repetitions g p 4 1 then Inr (RESULT_THREEFOLD, moves)
           else Inr (RESULT_NONE, moves))"

definition illegal_move :: "move_t \<Rightarrow> move_t list \<Rightarrow> bool" where
  "illegal_move move moves = (move \<notin> set moves)"

section \<open>game.c: the position command\<close>

text \<open>
  The loop of uci_position_command,
  \<^verbatim>\<open>for (int ply = ply0 + 1; ply <= g->ply; ply++)\<close>, entered at \<open>k\<close> with the
  command built so far.
\<close>

function position_moves :: "'b Chess \<Rightarrow> 'b Game \<Rightarrow> nat \<Rightarrow> string \<Rightarrow> string" where
  "position_moves ch g k cmd =
     (if k \<le> ply g then
        position_moves ch g (k + 1)
          (cmd @ '' '' @ pos_move_to_lan ch (pos g ! (k - 1)) (lastMove (pos g ! k))
             (chess960 (go g)))
      else cmd)"
  by pat_completeness auto
termination
  by (relation "measure (\<lambda>(ch, g, k, cmd). Suc (ply g) - k)") auto

declare position_moves.simps [simp del]

definition uci_position_command :: "'b Chess \<Rightarrow> 'b Game \<Rightarrow> error + string" where
  "uci_position_command ch g =
     (if length (pos g) \<le> ply g then Inl Bad_read
      else
        let ply0 = nat (max (int (ply g) - int (rule50 (pos g ! ply g))) 0);
            cmd = ''position fen '' @ pos_get ch (pos g ! ply0)
        in if ply0 < ply g then Inr (position_moves ch g (ply0 + 1) (cmd @ '' moves''))
           else Inr cmd)"

section \<open>game.c: decoding the result\<close>

text \<open>
  The wire result of a game lost by the side to move,
  \<^verbatim>\<open>g->pos[g->ply].turn == WHITE ? "0-1" : "1-0"\<close>.
\<close>

definition loser_to_move :: "'b Game \<Rightarrow> string" where
  "loser_to_move g = (if turn (pos g ! ply g) = WHITE then ''0-1'' else ''1-0'')"

text \<open>
  game_decode_result returns (result, reason). The branches that read
  \<^verbatim>\<open>g->pos[g->ply].turn\<close> need that slot; the chain ends in \<^verbatim>\<open>assert(false)\<close>.
\<close>

definition game_decode_result :: "'b Game \<Rightarrow> error + (string \<times> string)" where
  "game_decode_result g =
     (if result g = RESULT_NONE then Inr (''*'', ''unterminated'')
      else if result g = RESULT_CHECKMATE then
        (if length (pos g) \<le> ply g then Inl Bad_read
         else Inr (loser_to_move g, ''checkmate''))
      else if result g = RESULT_STALEMATE then Inr (''1/2-1/2'', ''stalemate'')
      else if result g = RESULT_THREEFOLD then Inr (''1/2-1/2'', ''3 repetitions'')
      else if result g = RESULT_FIFTY_MOVES then Inr (''1/2-1/2'', ''50 move rule'')
      else if result g = RESULT_INSUFFICIENT_MATERIAL then
        Inr (''1/2-1/2'', ''insufficient material'')
      else if result g = RESULT_ILLEGAL_MOVE then
        (if length (pos g) \<le> ply g then Inl Bad_read
         else Inr (loser_to_move g, ''illegal move''))
      else if result g = RESULT_DRAW_ADJUDICATION then
        Inr (''1/2-1/2'', ''draw by adjudication'')
      else if result g = RESULT_RESIGN then
        (if length (pos g) \<le> ply g then Inl Bad_read
         else Inr (loser_to_move g,
                   if turn (pos g ! ply g) = WHITE then ''white resigns'' else ''black resigns''))
      else Inl Assert_failed)"

section \<open>engine.c: lines in and out\<close>

text \<open>
  engine_readln and engine_writeln. Each \<^verbatim>\<open>die()\<close> is an error value.
\<close>

definition engine_readln :: "Engine \<Rightarrow> error + (string \<times> Engine)" where
  "engine_readln e =
     (case inp e of
        [] \<Rightarrow> Inl (Die (''engine_readln() failed reading from '' @ name e))
      | line # rest \<Rightarrow>
          (case log e of
             None \<Rightarrow> Inr (line, e\<lparr>inp := rest, trace := trace e @ [Received line]\<rparr>)
           | Some lg \<Rightarrow>
               if log_ok e then
                 Inr (line, e\<lparr>inp := rest, trace := trace e @ [Received line],
                               log := Some (lg @ [name e @ '' -> '' @ line])\<rparr>)
               else Inl (Die ''engine_writeln() failed writing to log'')))"

definition engine_writeln :: "Engine \<Rightarrow> string \<Rightarrow> error + Engine" where
  "engine_writeln e buf =
     (if out_ok e then
        (case log e of
           None \<Rightarrow> Inr (e\<lparr>trace := trace e @ [Sent buf]\<rparr>)
         | Some lg \<Rightarrow>
             if log_ok e then
               Inr (e\<lparr>trace := trace e @ [Sent buf],
                      log := Some (lg @ [name e @ '' <- '' @ buf])\<rparr>)
             else Inl (Die ''engine_writeln() failed writing to log''))
      else Inl (Die (''engine_writeln() failed writing to '' @ name e)))"

text \<open>
  engine_sync writes \<open>isready\<close> and reads up to the line \<open>readyok\<close>; \<open>sync_loop\<close> is its
  \<^verbatim>\<open>do ... while (strcmp(line.buf, "readyok"))\<close>. Every turn of the loop takes a line
  from the input, which is finite.
\<close>

function sync_loop :: "Engine \<Rightarrow> error + Engine" where
  "sync_loop e =
     (case engine_readln e of
        Inl err \<Rightarrow> Inl err
      | Inr (line, e') \<Rightarrow> if line = ''readyok'' then Inr e' else sync_loop e')"
  by pat_completeness auto
termination
  by (relation "measure (\<lambda>e. length (inp e))")
    (auto simp: engine_readln_def split: list.splits option.splits if_splits)

declare sync_loop.simps [simp del]

definition engine_sync :: "Engine \<Rightarrow> error + Engine" where
  "engine_sync e = bind_err (engine_writeln e ''isready'') sync_loop"

section \<open>engine.c: tokens and numbers\<close>

text \<open>
  Modelled from the spec: \<^verbatim>\<open>str_tok\<close> of str.c, which is not among the sources. The spec
  speaks of the tokens of a line and of the remainder after them; engine.c passes the
  delimiter \<^verbatim>\<open>" "\<close>, treats a \<^verbatim>\<open>NULL\<close> result as "no token" (\<^verbatim>\<open>if (!tail) ; // empty line\<close>)
  and takes \<^verbatim>\<open>tail + 1\<close> as the text after the delimiter that ends a token. So: a \<^verbatim>\<open>NULL\<close>
  string is left alone; otherwise leading delimiters are skipped, the token is the longest
  run of other characters, and the result is the rest of the string, or \<^verbatim>\<open>NULL\<close> when the
  token is empty. The pair is (returned tail, new content of the token buffer).
\<close>

definition str_tok :: "string option \<Rightarrow> string \<Rightarrow> string \<Rightarrow> string option \<times> string" where
  "str_tok s token delim =
     (case s of
        None \<Rightarrow> (None, token)
      | Some cs \<Rightarrow>
          let cs' = dropWhile (\<lambda>c. c \<in> set delim) cs;
              tok = takeWhile (\<lambda>c. c \<notin> set delim) cs';
              rest = dropWhile (\<lambda>c. c \<notin> set delim) cs'
          in (if tok = [] then None else Some rest, tok))"

text \<open>
  \<^verbatim>\<open>atoi\<close> of the C library, which engine.c calls on the token after \<open>cp\<close> or \<open>mate\<close>:
  white space, an optional sign, decimal digits. C defines the result only where the number
  fits in an \<^verbatim>\<open>int\<close>. Beyond that the model is the C library of a 64-bit Linux system,
  where \<^verbatim>\<open>atoi(s)\<close> is \<^verbatim>\<open>(int) strtol(s, NULL, 10)\<close>: the number is held at \<^verbatim>\<open>LONG_MIN\<close> or
  \<^verbatim>\<open>LONG_MAX\<close> (64 bits) when it is beyond them, and its low 32 bits are the result.
\<close>

definition isspace :: "char \<Rightarrow> bool" where
  "isspace c = (c = CHR '' '' \<or> (9 \<le> (of_char c :: nat) \<and> (of_char c :: nat) \<le> 13))"

definition isdigit :: "char \<Rightarrow> bool" where
  "isdigit c = (48 \<le> (of_char c :: nat) \<and> (of_char c :: nat) \<le> 57)"

fun digits_value :: "int \<Rightarrow> string \<Rightarrow> int" where
  "digits_value acc [] = acc"
| "digits_value acc (c # cs) =
     (if isdigit c then digits_value (10 * acc + (int (of_char c) - 48)) cs else acc)"

definition LONG_MAX :: int where
  "LONG_MAX = 9223372036854775807"

definition LONG_MIN :: int where
  "LONG_MIN = - 9223372036854775808"

definition strtol :: "string \<Rightarrow> int" where
  "strtol s =
     (let s' = dropWhile isspace s
      in if s' \<noteq> [] \<and> hd s' = CHR ''-'' then max LONG_MIN (- digits_value 0 (tl s'))
         else if s' \<noteq> [] \<and> hd s' = CHR ''+'' then min LONG_MAX (digits_value 0 (tl s'))
         else min LONG_MAX (digits_value 0 s'))"

definition atoi :: "string \<Rightarrow> int32" where
  "atoi s = word_of_int (strtol s)"

section \<open>engine.c: the best-move request\<close>

text \<open>
  The scan of an \<open>info\<close> line for its \<open>score\<close> token,
  \<^verbatim>\<open>while ((tail = str_tok(tail, &token, " ")) && strcmp(token.buf, "score"));\<close>
\<close>

function find_score :: "string option \<Rightarrow> string \<Rightarrow> string option \<times> string" where
  "find_score tail token =
     (let (tail', token') = str_tok tail token '' ''
      in if tail' \<noteq> None \<and> token' \<noteq> ''score'' then find_score tail' token'
         else (tail', token'))"
  by pat_completeness auto
termination
  apply (relation "measure (\<lambda>(tail, token). case tail of None \<Rightarrow> 0 | Some cs \<Rightarrow> Suc (length cs))")
   apply simp
  apply (auto simp: str_tok_def Let_def split: option.splits if_splits)
  subgoal premises prems for cs
  proof -
    let ?ys = "dropWhile (\<lambda>c. c = CHR '' '') cs"
    have "length (takeWhile (\<lambda>c. c \<noteq> CHR '' '') ?ys)
            + length (dropWhile (\<lambda>c. c \<noteq> CHR '' '') ?ys) = length ?ys"
      by (metis length_append takeWhile_dropWhile_id)
    moreover have "length ?ys \<le> length cs"
      by (rule length_dropWhile_le)
    moreover have "0 < length (takeWhile (\<lambda>c. c \<noteq> CHR '' '') ?ys)"
      using prems(2) by simp
    ultimately show ?thesis by linarith
  qed
  done

declare find_score.simps [simp del]

text \<open>
  What follows \<open>score\<close>, entered with the token after it already read: the branches of
  \<^verbatim>\<open>if (!strcmp(token.buf, "cp") && (tail = str_tok(tail, &token, " "))) ... else if
  (!strcmp(token.buf, "mate") && ...) ... else die(...)\<close>, each \<^verbatim>\<open>str_tok\<close> overwriting the
  token as in the source.
\<close>

definition mate_score :: "string \<Rightarrow> int32" where
  "mate_score token = (if sint (atoi token) < 0 then INT_MIN else INT_MAX)"

definition parse_score :: "string option \<Rightarrow> string \<Rightarrow> error + int32" where
  "parse_score tail token =
     (if token = ''cp'' then
        (let (tail', token') = str_tok tail token '' ''
         in if tail' \<noteq> None then Inr (atoi token')
            else if token' = ''mate'' \<and> fst (str_tok tail' token' '' '') \<noteq> None then
              Inr (mate_score (snd (str_tok tail' token' '' '')))
            else Inl (Die ''illegal syntax after 'score' in 'info' line''))
      else if token = ''mate'' then
        (let (tail', token') = str_tok tail token '' ''
         in if tail' \<noteq> None then Inr (mate_score token')
            else Inl (Die ''illegal syntax after 'score' in 'info' line''))
      else Inl (Die ''illegal syntax after 'score' in 'info' line''))"

text \<open>
  The body of the main loop of engine_bestmove after the line is read and the clock taken:
  the new values of (\<^verbatim>\<open>result\<close>, \<^verbatim>\<open>*score\<close>, \<^verbatim>\<open>*best\<close>). The token buffer is overwritten by the
  first \<^verbatim>\<open>str_tok\<close> of every line, so its old content does not matter.
\<close>

definition bestmove_line :: "string \<Rightarrow> int32 \<Rightarrow> string \<Rightarrow> error + (bool \<times> int32 \<times> string)" where
  "bestmove_line line score best =
     (let (tail, token) = str_tok (Some line) [] '' ''
      in if tail = None then Inr (False, score, best)
         else if token = ''info'' then
           (let (tail1, token1) = find_score tail token;
                (tail2, token2) = str_tok tail1 token1 '' ''
            in if tail2 \<noteq> None then
                 bind_err (parse_score tail2 token2) (\<lambda>score'. Inr (False, score', best))
               else Inr (False, score, best))
         else if token = ''bestmove'' \<and> fst (str_tok tail token '' '') \<noteq> None then
           Inr (True, score, snd (str_tok tail token '' ''))
         else Inr (False, score, best))"

text \<open>
  What a call of engine_bestmove leaves behind: its boolean result, the three
  out-parameters, the engine, and the number of readings of the clock taken so far.
  \<^verbatim>\<open>system_msec()\<close> is the function \<open>msec\<close> of the number of earlier readings: nothing is
  assumed about the clock. Times are \<^verbatim>\<open>int64_t\<close> milliseconds, taken as integers.
\<close>

record Search =
  found :: bool
  score :: int32
  timeLeft :: int
  best :: string
  engine :: Engine
  ticks :: nat

text \<open>
  \<^verbatim>\<open>while (*timeLeft >= 0 && !result)\<close>, entered with \<open>result\<close> false; \<open>t\<close> counts the clock
  readings, \<open>left\<close>, \<open>sc\<close> and \<open>b\<close> are \<^verbatim>\<open>*timeLeft\<close>, \<^verbatim>\<open>*score\<close> and \<^verbatim>\<open>*best\<close>.
\<close>

function bestmove_loop ::
  "(nat \<Rightarrow> int) \<Rightarrow> int \<Rightarrow> Engine \<Rightarrow> nat \<Rightarrow> int \<Rightarrow> int32 \<Rightarrow> string \<Rightarrow> error + Search" where
  "bestmove_loop msec deadline e t left sc b =
     (if 0 \<le> left then
        (case engine_readln e of
           Inl err \<Rightarrow> Inl err
         | Inr (line, e') \<Rightarrow>
             (case bestmove_line line sc b of
                Inl err \<Rightarrow> Inl err
              | Inr (res, sc', b') \<Rightarrow>
                  if res then
                    Inr \<lparr>found = True, score = sc', timeLeft = deadline - msec t, best = b',
                         engine = e', ticks = t + 1\<rparr>
                  else bestmove_loop msec deadline e' (t + 1) (deadline - msec t) sc' b'))
      else Inr \<lparr>found = False, score = sc, timeLeft = left, best = b, engine = e, ticks = t\<rparr>)"
  by pat_completeness auto
termination
  by (relation "measure (\<lambda>(msec, deadline, e, t, left, sc, b). length (inp e))")
    (auto simp: engine_readln_def split: list.splits option.splits if_splits)

declare bestmove_loop.simps [simp del]

text \<open>
  The loop after \<open>stop\<close>:
  \<^verbatim>\<open>do { engine_readln(e, &line); } while (strncmp(line.buf, "bestmove ", strlen("bestmove ")));\<close>
\<close>

function drain_loop :: "Engine \<Rightarrow> error + Engine" where
  "drain_loop e =
     (case engine_readln e of
        Inl err \<Rightarrow> Inl err
      | Inr (line, e') \<Rightarrow> if take 9 line = ''bestmove '' then Inr e' else drain_loop e')"
  by pat_completeness auto
termination
  by (relation "measure (\<lambda>e. length (inp e))")
    (auto simp: engine_readln_def split: list.splits option.splits if_splits)

declare drain_loop.simps [simp del]

definition engine_bestmove ::
  "(nat \<Rightarrow> int) \<Rightarrow> nat \<Rightarrow> Engine \<Rightarrow> int \<Rightarrow> string \<Rightarrow> error + Search" where
  "engine_bestmove msec t e left b =
     (let start = msec t;
          deadline = start + left
      in bind_err (bestmove_loop msec deadline e (t + 1) left 0 b) (\<lambda>r.
           if found r then Inr r
           else bind_err (engine_writeln (engine r) ''stop'') (\<lambda>e'.
                bind_err (drain_loop e') (\<lambda>e''. Inr (r\<lparr>engine := e''\<rparr>)))))"

section \<open>game.c: playing a game\<close>

text \<open>
  The \<open>go\<close> command of engine \<open>i\<close>: \<^verbatim>\<open>%u\<close> of \<^verbatim>\<open>(int)g->go.nodes[i]\<close> prints the low 32 bits
  unsigned, \<^verbatim>\<open>%i\<close> prints a signed decimal.
\<close>

function dec :: "nat \<Rightarrow> string" where
  "dec n = (if n < 10 then [''0123456789'' ! n] else dec (n div 10) @ [''0123456789'' ! (n mod 10)])"
  by pat_completeness auto
termination
  by (relation "measure id") auto

declare dec.simps [simp del]

definition fmt_u :: "int32 \<Rightarrow> string" where
  "fmt_u w = dec (unat w)"

definition fmt_i :: "int32 \<Rightarrow> string" where
  "fmt_i w = (if sint w < 0 then ''-'' @ dec (nat (- sint w)) else dec (nat (sint w)))"

definition go_command :: "GameOptions \<Rightarrow> nat \<Rightarrow> string" where
  "go_command opts i =
     ''go'' @
     (if at2 (nodes opts) i \<noteq> 0 then '' nodes '' @ fmt_u (ucast (at2 (nodes opts) i)) else []) @
     (if at2 (depth opts) i \<noteq> 0 then '' depth '' @ fmt_i (at2 (depth opts) i) else []) @
     (if at2 (movetime opts) i \<noteq> 0 then '' movetime '' @ fmt_i (at2 (movetime opts) i) else [])"

text \<open>
  The two adjudication rules of the main loop, each giving (whether the game ends here, the
  new value of the counter). \<^verbatim>\<open>abs\<close>, the negation and the product are those of 32-bit
  two's complement; the counters are \<^verbatim>\<open>int\<close>.
\<close>

definition abs32 :: "int32 \<Rightarrow> int32" where
  "abs32 x = (if sint x < 0 then - x else x)"

definition draw_adjudication :: "GameOptions \<Rightarrow> int32 \<Rightarrow> int32 \<Rightarrow> bool \<times> int32" where
  "draw_adjudication opts sc dpc =
     (if drawCount opts \<noteq> 0 \<and> sint (abs32 sc) \<le> sint (drawScore opts) then
        (sint (2 * drawCount opts) \<le> sint (dpc + 1), dpc + 1)
      else (False, 0))"

definition resign_rule :: "GameOptions \<Rightarrow> int32 \<Rightarrow> int32 \<Rightarrow> bool \<times> int32" where
  "resign_rule opts sc rc =
     (if resignCount opts \<noteq> 0 \<and> sint sc \<le> sint (- resignScore opts) then
        (sint (resignCount opts) \<le> sint (rc + 1), rc + 1)
      else (False, 0))"

text \<open>
  Modelled from the spec: the function that game.c calls as \<^verbatim>\<open>engine_bestmove(e, &score)\<close>
  and whose returned string it takes as the move. No function of that signature is among
  the sources; engine.c has the function of that name with two more parameters, a time
  budget and a buffer for the move, and a boolean result. The spec knows one request
  ("Request a best move with the side's current \<open>timeLeft\<close>"), which is the one engine.c
  implements, so the missing function is that request: the budget \<open>left\<close> comes from
  outside, game.c keeping no clocks; the string returned is a new one (game.c deletes it
  after use), so it is empty unless a move was written to it; and game.c has no variable
  that could receive the boolean. Whatever game_play does after a request that timed out
  is a statement about this model.
\<close>

definition game_bestmove ::
  "(nat \<Rightarrow> int) \<Rightarrow> nat \<Rightarrow> Engine \<Rightarrow> int \<Rightarrow> error + (string \<times> int32 \<times> Engine \<times> nat)" where
  "game_bestmove msec t e left =
     bind_err (engine_bestmove msec t e left []) (\<lambda>r. Inr (best r, score r, engine r, ticks r))"

text \<open>
  The variables of game_play that live across iterations of its main loop: the game, the
  two engines (\<^verbatim>\<open>engines[0]\<close> is \<open>first\<close>), \<open>played\<close>, \<open>drawPlyCount\<close>, the array
  \<^verbatim>\<open>resignCount\<close> (here \<open>resignCounts\<close>, the options having a field of that name), and the
  number of clock readings. An iteration ends in \<^verbatim>\<open>break\<close> or goes on to the next ply.
\<close>

record 'b Play =
  game :: "'b Game"
  engines :: "Engine \<times> Engine"
  played :: move_t
  drawPlyCount :: int32
  resignCounts :: "int32 \<times> int32"
  clock_ticks :: nat

datatype 'a step = Break 'a | Next 'a

text \<open>
  \<^verbatim>\<open>pos_move(&g->pos[g->ply], &g->pos[g->ply - 1], played)\<close>: reads the slot before the
  current one and writes the current one.
\<close>

definition apply_played :: "'b Chess \<Rightarrow> 'b Game \<Rightarrow> move_t \<Rightarrow> error + 'b Game" where
  "apply_played ch g mv =
     (if ply g = 0 \<or> length (pos g) < ply g then Inl Bad_read
      else if maxPly g \<le> ply g then Inl Bad_write
      else
        let p = pos_move ch (pos g ! (ply g - 1)) mv
        in Inr (g\<lparr>pos := (if ply g < length (pos g) then (pos g)[ply g := p] else pos g @ [p])\<rparr>))"

text \<open>
  The end of an iteration, from \<^verbatim>\<open>played = pos_lan_to_move(...)\<close> on: the legality test and
  the two adjudication rules.
\<close>

definition adjudicate ::
  "'b Chess \<Rightarrow> 'b Play \<Rightarrow> 'b Game \<Rightarrow> move_t list \<Rightarrow> string \<times> int32 \<times> Engine \<times> nat \<Rightarrow>
     'b Play step" where
  "adjudicate ch s g moves reply =
     (case reply of (lan, sc, e, t') \<Rightarrow>
        let side = ply g mod 2;
            mv = pos_lan_to_move ch (pos g ! ply g) lan (chess960 (go g));
            s1 = s\<lparr>game := g, engines := set2 (engines s) side e, played := mv,
                   clock_ticks := t'\<rparr>
        in if illegal_move mv moves then
             Break (s1\<lparr>game := g\<lparr>result := RESULT_ILLEGAL_MOVE\<rparr>\<rparr>)
           else
             let (drawn, dpc) = draw_adjudication (go g) sc (drawPlyCount s1);
                 s2 = s1\<lparr>drawPlyCount := dpc\<rparr>
             in if drawn then Break (s2\<lparr>game := g\<lparr>result := RESULT_DRAW_ADJUDICATION\<rparr>\<rparr>)
                else
                  let (resigned, rc) = resign_rule (go g) sc (at2 (resignCounts s2) side);
                      s3 = s2\<lparr>resignCounts := set2 (resignCounts s2) side rc\<rparr>
                  in if resigned then Break (s3\<lparr>game := g\<lparr>result := RESULT_RESIGN\<rparr>\<rparr>)
                     else Next (s3\<lparr>game := g\<lparr>ply := ply g + 1\<rparr>\<rparr>))"

text \<open>
  The middle of an iteration: the position command, the synchronisation, the \<open>go\<close> command
  and the request, with the engine whose turn it is.
\<close>

definition request_move ::
  "'b Chess \<Rightarrow> (nat \<Rightarrow> int) \<Rightarrow> (nat \<Rightarrow> int) \<Rightarrow> string \<times> string \<Rightarrow> 'b Play \<Rightarrow> 'b Game \<Rightarrow>
     error + (string \<times> int32 \<times> Engine \<times> nat)" where
  "request_move ch msec budget goCmd s g =
     (let side = ply g mod 2;
          e = at2 (engines s) side
      in bind_err (uci_position_command ch g) (\<lambda>posCmd.
         bind_err (engine_writeln e posCmd) (\<lambda>e1.
         bind_err (engine_sync e1) (\<lambda>e2.
         bind_err (engine_writeln e2 (at2 goCmd side)) (\<lambda>e3.
         game_bestmove msec (clock_ticks s) e3 (budget (ply g)))))))"

text \<open>
  One iteration of \<^verbatim>\<open>for (g->ply = 0; ; g->ply++)\<close>. \<^verbatim>\<open>realloc\<close> is taken to succeed.
\<close>

definition game_step ::
  "'b Chess \<Rightarrow> (nat \<Rightarrow> int) \<Rightarrow> (nat \<Rightarrow> int) \<Rightarrow> string \<times> string \<Rightarrow> 'b Play \<Rightarrow> error + 'b Play step" where
  "game_step ch msec budget goCmd s =
     (let g0 = game s;
          g1 = (if maxPly g0 \<le> ply g0 then g0\<lparr>maxPly := 2 * maxPly g0\<rparr> else g0)
      in bind_err (if played s \<noteq> 0 then apply_played ch g1 (played s) else Inr g1) (\<lambda>g2.
         bind_err (game_result ch g2) (\<lambda>(res, moves).
           let g3 = g2\<lparr>result := res\<rparr>
           in if res \<noteq> RESULT_NONE then Inr (Break (s\<lparr>game := g3\<rparr>))
              else bind_err (request_move ch msec budget goCmd s g3) (\<lambda>reply.
                     Inr (adjudicate ch s g3 moves reply)))))"

text \<open>
  The loop. engine_sync takes at least one line from the engine to move in every
  iteration, and nothing adds lines, so the lines the two engines have left to deliver
  bound the number of iterations.
\<close>

definition lines_left :: "'b Play \<Rightarrow> nat" where
  "lines_left s = length (inp (fst (engines s))) + length (inp (snd (engines s)))"

function game_loop ::
  "'b Chess \<Rightarrow> (nat \<Rightarrow> int) \<Rightarrow> (nat \<Rightarrow> int) \<Rightarrow> string \<times> string \<Rightarrow> 'b Play \<Rightarrow> error + 'b Play" where
  "game_loop ch msec budget goCmd s =
     (case game_step ch msec budget goCmd s of
        Inl err \<Rightarrow> Inl err
      | Inr (Break s') \<Rightarrow> Inr s'
      | Inr (Next s') \<Rightarrow> game_loop ch msec budget goCmd s')"
  by pat_completeness auto
termination
proof (relation "measure (\<lambda>(ch, msec, budget, goCmd, s). lines_left s)", goal_cases)
  case 1
  show ?case by simp
next
  case (2 ch msec budget goCmd s st s')
  have rd: "inp e = l # inp e'" if "engine_readln e = Inr (l, e')" for e l e'
    using that by (auto simp: engine_readln_def split: list.splits option.splits if_splits)
  have wr: "inp e' = inp e" if "engine_writeln e buf = Inr e'" for e buf e'
    using that by (auto simp: engine_writeln_def split: option.splits if_splits)
  have bind: "(\<exists>x. m = Inr x \<and> f x = Inr y)" if "bind_err m f = Inr y"
    for m :: "error + 'x" and f :: "'x \<Rightarrow> error + 'y" and y
    using that by (cases m) (simp_all add: bind_err_def)
  have sync: "length (inp e') < length (inp e)" if "sync_loop e = Inr e'" for e e'
    using that
  proof (induction e rule: sync_loop.induct)
    case (1 e)
    from "1.prems" obtain line e1 where r: "engine_readln e = Inr (line, e1)"
      and rest: "if line = ''readyok'' then e' = e1 else sync_loop e1 = Inr e'"
      by (subst (asm) sync_loop.simps) (auto split: sum.splits if_splits)
    from rd [OF r] have "length (inp e1) < length (inp e)" by simp
    with rest "1.IH" [OF r refl] show ?case
      by (cases "line = ''readyok''") auto
  qed
  have drain: "length (inp e') < length (inp e)" if "drain_loop e = Inr e'" for e e'
    using that
  proof (induction e rule: drain_loop.induct)
    case (1 e)
    from "1.prems" obtain line e1 where r: "engine_readln e = Inr (line, e1)"
      and rest: "if take 9 line = ''bestmove '' then e' = e1 else drain_loop e1 = Inr e'"
      by (subst (asm) drain_loop.simps) (auto split: sum.splits if_splits)
    from rd [OF r] have "length (inp e1) < length (inp e)" by simp
    with rest "1.IH" [OF r refl] show ?case
      by (cases "take 9 line = ''bestmove ''") auto
  qed
  have loop: "length (inp (engine r)) \<le> length (inp e)"
    if "bestmove_loop m d e t left sc b = Inr r" for m d e t left sc b r
    using that
  proof (induction m d e t left sc b rule: bestmove_loop.induct)
    case (1 m d e t left sc b)
    show ?case
    proof (cases "0 \<le> left")
      case False
      with "1.prems" show ?thesis
        by (subst (asm) bestmove_loop.simps) auto
    next
      case True
      with "1.prems" obtain line e1 res sc' b' where r: "engine_readln e = Inr (line, e1)"
        and ln: "bestmove_line line sc b = Inr (res, sc', b')"
        and rest: "if res then engine r = e1
                   else bestmove_loop m d e1 (t + 1) (d - m t) sc' b' = Inr r"
        by (subst (asm) bestmove_loop.simps) (auto split: sum.splits if_splits)
      from rd [OF r] have "length (inp e1) < length (inp e)" by simp
      with rest "1.IH" [OF True r refl ln refl refl] show ?thesis
        by (cases res) auto
    qed
  qed
  have bm: "length (inp e') \<le> length (inp e)"
    if "game_bestmove m t e left = Inr (lan, sc, e', t')" for m t e left lan sc e' t'
  proof -
    from that obtain r where r: "engine_bestmove m t e left [] = Inr r" and e': "e' = engine r"
      by (auto simp: game_bestmove_def dest!: bind)
    from r obtain r0 where l: "bestmove_loop m (m t + left) e (t + 1) left 0 [] = Inr r0"
      and f: "if found r0 then r = r0
              else \<exists>e1 e2. engine_writeln (engine r0) ''stop'' = Inr e1 \<and>
                     drain_loop e1 = Inr e2 \<and> r = r0\<lparr>engine := e2\<rparr>"
      by (auto simp: engine_bestmove_def Let_def dest!: bind split: if_splits)
    from f loop [OF l] show ?thesis
      unfolding e' by (cases "found r0") (auto dest!: wr drain)
  qed
  from 2 have "game_step ch msec budget goCmd s = Inr (Next s')" by simp
  then obtain g moves reply where rq: "request_move ch msec budget goCmd s g = Inr reply"
    and ad: "adjudicate ch s g moves reply = Next s'"
    unfolding game_step_def Let_def
    by (auto dest!: bind split: prod.splits if_splits)
  obtain lan sc e4 t' where reply: "reply = (lan, sc, e4, t')"
    by (cases reply) auto
  define side where "side = ply g mod 2"
  from ad have es: "engines s' = set2 (engines s) side e4"
    unfolding adjudicate_def reply side_def Let_def
    by (auto split: prod.splits if_splits)
  from rq obtain posCmd e1 e2 e3 where
    w1: "engine_writeln (at2 (engines s) side) posCmd = Inr e1"
    and sy: "engine_sync e1 = Inr e2"
    and w2: "engine_writeln e2 (at2 goCmd side) = Inr e3"
    and gb: "game_bestmove msec (clock_ticks s) e3 (budget (ply g)) = Inr (lan, sc, e4, t')"
    unfolding request_move_def reply side_def Let_def
    by (auto dest!: bind)
  from sy obtain e1' where "engine_writeln e1 ''isready'' = Inr e1'" "sync_loop e1' = Inr e2"
    by (auto simp: engine_sync_def dest!: bind)
  with sync [of e1' e2] wr [of e1 "''isready''" e1']
  have "length (inp e2) < length (inp e1)" by simp
  with bm [OF gb] wr [OF w1] wr [OF w2]
  have "length (inp e4) < length (inp (at2 (engines s) side))" by simp
  with es have "lines_left s' < lines_left s"
    by (auto simp: lines_left_def set2_def at2_def)
  then show ?case by simp
qed

declare game_loop.simps [simp del]

text \<open>
  game_new, and game_play: its start (the names, \<open>ucinewgame\<close> to both engines, the
  initial values of the loop variables), the loop, and \<^verbatim>\<open>assert(g->result)\<close>.
\<close>

definition game_new :: "'b Chess \<Rightarrow> string \<Rightarrow> GameOptions \<Rightarrow> 'b Game" where
  "game_new ch fen opts =
     \<lparr>names = ([], []), pos = [pos_set ch fen], ply = 0, maxPly = 256, result = RESULT_NONE,
      go = opts\<rparr>"

definition ucinewgame :: "bool \<Rightarrow> Engine \<Rightarrow> error + Engine" where
  "ucinewgame c960 e =
     bind_err (if c960 then engine_writeln e ''setoption name UCI_Chess960 value true'' else Inr e)
       (\<lambda>e'. engine_writeln e' ''ucinewgame'')"

definition play_init :: "'b Game \<Rightarrow> Engine \<times> Engine \<Rightarrow> nat \<Rightarrow> 'b Play" where
  "play_init g es t =
     \<lparr>game = g\<lparr>ply := 0\<rparr>, engines = es, played = 0, drawPlyCount = 0, resignCounts = (0, 0),
      clock_ticks = t\<rparr>"

definition game_begin :: "'b Game \<Rightarrow> Engine \<Rightarrow> Engine \<Rightarrow> nat \<Rightarrow> error + 'b Play" where
  "game_begin g first second t =
     (if pos g = [] then Inl Bad_read
      else
        let g' = g\<lparr>names := (if turn (pos g ! 0) = WHITE then (name first, name second)
                               else (name second, name first))\<rparr>
        in bind_err (ucinewgame (chess960 (go g')) first) (\<lambda>e0.
           bind_err (ucinewgame (chess960 (go g')) second) (\<lambda>e1.
           Inr (play_init g' (e0, e1) t))))"

definition game_play ::
  "'b Chess \<Rightarrow> (nat \<Rightarrow> int) \<Rightarrow> nat \<Rightarrow> (nat \<Rightarrow> int) \<Rightarrow> 'b Game \<Rightarrow> Engine \<Rightarrow> Engine \<Rightarrow>
     error + 'b Play" where
  "game_play ch msec t budget g first second =
     bind_err (game_begin g first second t) (\<lambda>s0.
     bind_err (game_loop ch msec budget (go_command (go g) 0, go_command (go g) 1) s0) (\<lambda>s.
       if result (game s) = RESULT_NONE then Inl Assert_failed else Inr s))"


section \<open>Notions for stating the properties\<close>

text \<open>
  The tokens of a line, separated by spaces, defined without \<open>str_tok\<close>; the move of a line
  whose first token is \<open>bestmove\<close> and that has a second token; and the tokens that follow
  the first \<open>score\<close> token of an \<open>info\<close> line.
\<close>

function tokens :: "string \<Rightarrow> string list" where
  "tokens s =
     (let s' = dropWhile (\<lambda>c. c = CHR '' '') s
      in if s' = [] then []
         else takeWhile (\<lambda>c. c \<noteq> CHR '' '') s' # tokens (dropWhile (\<lambda>c. c \<noteq> CHR '' '') s'))"
  by pat_completeness auto
termination
proof (relation "measure length", goal_cases)
  case 1
  show ?case by simp
next
  case (2 s s')
  have "\<not> hd s' = CHR '' ''"
    using 2 hd_dropWhile [of "\<lambda>c. c = CHR '' ''" s] by simp
  with 2(2) have "takeWhile (\<lambda>c. c \<noteq> CHR '' '') s' \<noteq> []"
    by (cases s') simp_all
  then have "0 < length (takeWhile (\<lambda>c. c \<noteq> CHR '' '') s')"
    by simp
  moreover have "length (takeWhile (\<lambda>c. c \<noteq> CHR '' '') s')
            + length (dropWhile (\<lambda>c. c \<noteq> CHR '' '') s') = length s'"
    by (metis length_append takeWhile_dropWhile_id)
  moreover have "length s' \<le> length s"
    unfolding 2(1) by (rule length_dropWhile_le)
  ultimately have "length (dropWhile (\<lambda>c. c \<noteq> CHR '' '') s') < length s"
    by linarith
  then show ?case by simp
qed

declare tokens.simps [simp del]

definition bestmove_reply :: "string \<Rightarrow> string option" where
  "bestmove_reply line =
     (case tokens line of
        w # mv # _ \<Rightarrow> if w = ''bestmove'' then Some mv else None
      | _ \<Rightarrow> None)"

definition score_record :: "string \<Rightarrow> string list" where
  "score_record line =
     (case tokens line of
        [] \<Rightarrow> []
      | w # ws \<Rightarrow> if w = ''info'' then drop 1 (dropWhile (\<lambda>x. x \<noteq> ''score'') ws) else [])"

text \<open>
  The score that the tokens after \<open>score\<close> stand for.
\<close>

definition score_value :: "string list \<Rightarrow> error + int32" where
  "score_value rec =
     (case rec of
        u # n # _ \<Rightarrow>
          if u = ''cp'' then Inr (atoi n)
          else if u = ''mate'' then Inr (mate_score n)
          else Inl (Die ''illegal syntax after 'score' in 'info' line'')
      | _ \<Rightarrow> Inl (Die ''illegal syntax after 'score' in 'info' line''))"

text \<open>
  The time budget after \<open>j\<close> lines of a request entered at clock reading \<open>t\<close> with budget
  \<open>left\<close>; \<open>loop_left\<close> is the same inside the loop.
\<close>

definition remaining :: "(nat \<Rightarrow> int) \<Rightarrow> nat \<Rightarrow> int \<Rightarrow> nat \<Rightarrow> int" where
  "remaining msec t left j = (if j = 0 then left else msec t + left - msec (t + j))"

definition loop_left :: "(nat \<Rightarrow> int) \<Rightarrow> int \<Rightarrow> nat \<Rightarrow> int \<Rightarrow> nat \<Rightarrow> int" where
  "loop_left msec d t left j = (if j = 0 then left else d - msec (t + j - 1))"


text \<open>
  An engine whose streams can be used: writing to it succeeds, and so does writing to the
  log when there is one.
\<close>

definition streams_ok :: "Engine \<Rightarrow> bool" where
  "streams_ok e \<longleftrightarrow> out_ok e \<and> (log e = None \<or> log_ok e)"

text \<open>
  \<open>grown\<close> is the game after the buffer was enlarged where needed. \<open>fresh\<close> holds at the
  start of every iteration of a game that began with one position: the slots before the
  current ply are the initialised ones.
\<close>

definition grown :: "'b Game \<Rightarrow> 'b Game" where
  "grown g = (if maxPly g \<le> ply g then g\<lparr>maxPly := 2 * maxPly g\<rparr> else g)"


section \<open>Example data\<close>

text \<open>
  A small stand-in for the chess module, for evaluating the functions on concrete games:
  move 9 leads to a position without legal moves, a position with key 0 has insufficient
  material, and the three moves are written \<open>a\<close>, \<open>b\<close>, \<open>c\<close>.
\<close>

definition demo_position :: "color \<Rightarrow> nat \<Rightarrow> 64 word \<Rightarrow> 64 word \<Rightarrow> move_t \<Rightarrow> unit Position" where
  "demo_position t r c k m =
     \<lparr>turn = t, rule50 = r, checkers = c, key = k, lastMove = m, fullMove = 1, board = ()\<rparr>"

definition demo_chess :: "unit Chess" where
  "demo_chess =
     \<lparr>gen_all_moves = (\<lambda>p. if lastMove p = 9 then [] else [1, 2, 9]),
      pos_insufficient_material = (\<lambda>p. key p = 0),
      pos_move = (\<lambda>p m. demo_position (if turn p = WHITE then BLACK else WHITE)
                          (if m = 2 then 0 else rule50 p + 1) (if m = 9 then 1 else 0)
                          (key p + of_nat m) m),
      pos_get = (\<lambda>p. (if turn p = WHITE then ''w'' else ''b'') @ replicate (rule50 p) CHR ''+''),
      pos_set = (\<lambda>fen. demo_position (if fen = ''b'' then BLACK else WHITE) 0 0 1 0),
      pos_move_to_lan = (\<lambda>p m c. if m = 1 then ''a'' else if m = 2 then ''b'' else ''c''),
      pos_lan_to_move = (\<lambda>p s c. if s = ''a'' then 1 else if s = ''b'' then 2
                                else if s = ''c'' then 9 else 0)\<rparr>"

definition demo_go :: GameOptions where
  "demo_go =
     \<lparr>chess960 = False, nodes = (0, 0), depth = (0, 0), movetime = (0, 0),
      drawCount = 0, drawScore = 0, resignCount = 0, resignScore = 0\<rparr>"

text \<open>The game whose initialised positions are \<open>ps\<close>, at its last ply.\<close>

definition demo_game :: "unit Position list \<Rightarrow> result \<Rightarrow> unit Game" where
  "demo_game ps r =
     \<lparr>names = ([], []), pos = ps, ply = length ps - 1, maxPly = 256, result = r,
      go = demo_go\<rparr>"

text \<open>
  Nine positions; the last one has the key of the positions four and eight plies before it.
\<close>

definition demo_threefold :: "unit Game" where
  "demo_threefold = demo_game
      [demo_position WHITE 0 0 5 1, demo_position BLACK 1 0 1 1, demo_position WHITE 2 0 2 1,
       demo_position BLACK 3 0 3 1, demo_position WHITE 4 0 5 1, demo_position BLACK 5 0 1 1,
       demo_position WHITE 6 0 6 1, demo_position BLACK 7 0 3 1, demo_position WHITE 8 0 5 1]
      RESULT_NONE"

text \<open>
  Five positions; the last one has the key of the position four plies before it.
\<close>

definition demo_once :: "unit Game" where
  "demo_once = demo_game
      [demo_position WHITE 0 0 5 1, demo_position BLACK 1 0 1 1, demo_position WHITE 2 0 2 1,
       demo_position BLACK 3 0 3 1, demo_position WHITE 4 0 5 1]
      RESULT_NONE"

text \<open>A game of four moves whose second move reset the 50-move counter.\<close>

definition demo_history :: "unit Game" where
  "demo_history = demo_game
      [demo_position WHITE 0 0 5 0, demo_position BLACK 1 0 6 1, demo_position WHITE 0 0 8 2,
       demo_position BLACK 1 0 9 1, demo_position WHITE 2 0 18 9]
      RESULT_NONE"

text \<open>
  A clock that advances 60 ms per reading, one that shows 100 ms from the second reading
  on, the same budget at every ply, and an engine that will deliver the given lines.
\<close>

definition demo_clock :: "nat \<Rightarrow> int" where
  "demo_clock k = 60 * int k"

definition demo_slow_clock :: "nat \<Rightarrow> int" where
  "demo_slow_clock k = (if k = 0 then 0 else 100)"

definition flat_budget :: "int \<Rightarrow> nat \<Rightarrow> int" where
  "flat_budget b k = b"

definition demo_player :: "string list \<Rightarrow> Engine" where
  "demo_player ls =
     \<lparr>name = ''demo'', inp = ls, trace = [], out_ok = True, log = None, log_ok = True\<rparr>"

text \<open>
  The first engine of a game from the position \<open>w\<close>, after the position command, the
  synchronisation and \<open>go\<close>.
\<close>

definition demo_searching :: Engine where
  "demo_searching =
     \<lparr>name = ''demo'', inp = [''info depth 1'', ''bestmove a''],
      trace = [Sent ''ucinewgame'', Sent ''position fen w'', Sent ''isready'',
               Received ''readyok'', Sent ''go''],
      out_ok = True, log = None, log_ok = True\<rparr>"

text \<open>
  An engine that sends a second \<open>info\<close> line before its move, and a line after it.
\<close>

definition demo_stopped :: Engine where
  "demo_stopped = demo_player [''info depth 1'', ''info depth 2'', ''bestmove a'', ''x'']"



text \<open>
  The loop variables at the start of a game from the position \<open>w\<close> whose first engine
  will answer \<open>readyok\<close>, an \<open>info\<close> line and \<open>bestmove a\<close>.
\<close>

definition demo_started :: "unit Play" where
  "demo_started =
     \<lparr>game = (game_new demo_chess ''w'' demo_go)\<lparr>names := (''demo'', ''demo'')\<rparr>,
      engines = ((demo_player [''readyok'', ''info depth 1'', ''bestmove a''])
                   \<lparr>trace := [Sent ''ucinewgame'']\<rparr>,
                 (demo_player [])\<lparr>trace := [Sent ''ucinewgame'']\<rparr>),
      played = 0, drawPlyCount = 0, resignCounts = (0, 0), clock_ticks = 0\<rparr>"

section \<open>Properties of game.c\<close>

subsection \<open>The repetition scan and the move loop in closed form\<close>

lemma scan_repetitions_card:
  "reps \<le> 2 \<Longrightarrow>
   scan_repetitions g p i reps \<longleftrightarrow>
     3 \<le> reps + card {j. i \<le> j \<and> even (j - i) \<and> j \<le> rule50 p \<and> j \<le> ply g \<and>
                        key (pos g ! (ply g - j)) = key p}"
proof (induction g p i reps rule: scan_repetitions.induct)
  case (1 g p i reps)
  define S where "S = (\<lambda>i. {j. i \<le> j \<and> even (j - i) \<and> j \<le> rule50 p \<and> j \<le> ply g \<and>
                        key (pos g ! (ply g - j)) = key p})"
  have fin: "finite (S k)" for k
    unfolding S_def by (rule finite_subset [of _ "{.. ply g}"]) auto
  have goal: "scan_repetitions g p i reps \<longleftrightarrow> 3 \<le> reps + card (S i)"
  proof (cases "i \<le> rule50 p \<and> i \<le> ply g")
    case False
    then have "S i = {}" unfolding S_def by auto
    moreover have "\<not> scan_repetitions g p i reps"
      using False by (subst scan_repetitions.simps) auto
    ultimately show ?thesis using 1(3) by simp
  next
    case inr: True
    have mem: "j \<in> S i \<longleftrightarrow> (j = i \<and> key (pos g ! (ply g - i)) = key p) \<or> j \<in> S (i + 2)" for j
    proof (cases "j = i")
      case True
      with inr show ?thesis unfolding S_def by auto
    next
      case False
      have "i \<le> j \<and> even (j - i) \<longleftrightarrow> i + 2 \<le> j \<and> even (j - (i + 2))"
        using False by (cases "j = i + 1") auto
      then show ?thesis using False unfolding S_def by auto
    qed
    have notin: "i \<notin> S (i + 2)" unfolding S_def by simp
    show ?thesis
    proof (cases "key (pos g ! (ply g - i)) = key p")
      case k: True
      from mem k have "S i = insert i (S (i + 2))" by blast
      then have c: "card (S i) = Suc (card (S (i + 2)))"
        using fin [of "i + 2"] notin by simp
      show ?thesis
      proof (cases "3 \<le> reps + 1")
        case True
        then have "scan_repetitions g p i reps"
          using inr k by (subst scan_repetitions.simps) simp
        with True c show ?thesis by simp
      next
        case False
        then have le: "reps + 1 \<le> 2" by simp
        have "scan_repetitions g p i reps = scan_repetitions g p (i + 2) (reps + 1)"
          using inr k False by (subst scan_repetitions.simps) simp
        also have "\<dots> \<longleftrightarrow> 3 \<le> reps + 1 + card (S (i + 2))"
          using 1(1) [OF inr k False le] unfolding S_def .
        finally show ?thesis using c by simp
      qed
    next
      case k: False
      from mem k have c: "S i = S (i + 2)" by blast
      have "scan_repetitions g p i reps = scan_repetitions g p (i + 2) reps"
        using inr k by (subst scan_repetitions.simps) simp
      also have "\<dots> \<longleftrightarrow> 3 \<le> reps + card (S (i + 2))"
        using 1(2) [OF inr k 1(3)] unfolding S_def .
      finally show ?thesis using c by simp
    qed
  qed
  then show ?case unfolding S_def .
qed

lemma scan_from_two:
  assumes "2 \<le> rule50 p \<and> 2 \<le> ply g \<longrightarrow> key (pos g ! (ply g - 2)) \<noteq> key p"
  shows "{i. even i \<and> 2 \<le> i \<and> i \<le> rule50 p \<and> i \<le> ply g \<and> key (pos g ! (ply g - i)) = key p}
       = {i. even i \<and> 4 \<le> i \<and> i \<le> rule50 p \<and> i \<le> ply g \<and> key (pos g ! (ply g - i)) = key p}"
proof -
  have "even i \<and> 2 \<le> i \<and> i \<le> rule50 p \<and> i \<le> ply g \<and> key (pos g ! (ply g - i)) = key p \<longleftrightarrow>
        even i \<and> 4 \<le> i \<and> i \<le> rule50 p \<and> i \<le> ply g \<and> key (pos g ! (ply g - i)) = key p" for i
  proof (cases "i = 2")
    case True
    with assms show ?thesis by auto
  next
    case False
    have "even i \<and> 2 \<le> i \<longleftrightarrow> even i \<and> 4 \<le> i"
      using False by (cases "i = 3") auto
    then show ?thesis by blast
  qed
  then show ?thesis by blast
qed

lemma game_result_scan:
  assumes "ply g < length (pos g)" and "p = pos g ! ply g"
    and "gen_all_moves ch p \<noteq> []" and "rule50 p < 100"
    and "\<not> pos_insufficient_material ch p"
  shows "game_result ch g = Inr (RESULT_THREEFOLD, gen_all_moves ch p) \<longleftrightarrow>
         2 \<le> card {i. even i \<and> 4 \<le> i \<and> i \<le> rule50 p \<and> i \<le> ply g \<and>
                       key (pos g ! (ply g - i)) = key p}"
proof -
  have set_eq: "{j. 4 \<le> j \<and> even (j - 4) \<and> j \<le> rule50 p \<and> j \<le> ply g \<and>
                        key (pos g ! (ply g - j)) = key p}
       = {i. even i \<and> 4 \<le> i \<and> i \<le> rule50 p \<and> i \<le> ply g \<and>
                       key (pos g ! (ply g - i)) = key p}"
    by auto
  have "game_result ch g = Inr (RESULT_THREEFOLD, gen_all_moves ch p) \<longleftrightarrow>
        scan_repetitions g p 4 1"
    using assms by (simp add: game_result_def Let_def)
  also have "\<dots> \<longleftrightarrow> 3 \<le> 1 + card {j. 4 \<le> j \<and> even (j - 4) \<and> j \<le> rule50 p \<and> j \<le> ply g \<and>
                        key (pos g ! (ply g - j)) = key p}"
    by (rule scan_repetitions_card) simp
  finally show ?thesis unfolding set_eq by simp
qed

lemma position_moves_eq:
  "k \<le> Suc (ply g) \<Longrightarrow> position_moves ch g k cmd =
     cmd @ concat (map (\<lambda>j. '' '' @ pos_move_to_lan ch (pos g ! (j - 1)) (lastMove (pos g ! j))
                                     (chess960 (go g))) [k ..< Suc (ply g)])"
proof (induction ch g k cmd rule: position_moves.induct)
  case (1 ch g k cmd)
  show ?case
  proof (cases "k \<le> ply g")
    case True
    then have "[k ..< Suc (ply g)] = k # [k + 1 ..< Suc (ply g)]"
      by (simp add: upt_conv_Cons)
    moreover have "position_moves ch g k cmd = position_moves ch g (k + 1)
          (cmd @ '' '' @ pos_move_to_lan ch (pos g ! (k - 1)) (lastMove (pos g ! k))
             (chess960 (go g)))"
      using True by (subst position_moves.simps) simp
    ultimately show ?thesis using 1(1) [OF True] True by simp
  next
    case False
    then have "position_moves ch g k cmd = cmd"
      by (subst position_moves.simps) simp
    moreover from False 1(2) have "k = Suc (ply g)" by simp
    ultimately show ?thesis by simp
  qed
qed

subsection \<open>Termination by the rules of chess\<close>

text \<open>
  C2. On a game whose current slot is initialised and whose 50-move counter is at most
  100, game_result decides in this order: an empty legal-move list gives
  \<open>RESULT_CHECKMATE\<close> when the side to move is in check and \<open>RESULT_STALEMATE\<close>
  otherwise; else a 50-move counter of at least 100 gives \<open>RESULT_FIFTY_MOVES\<close>; else
  insufficient material gives \<open>RESULT_INSUFFICIENT_MATERIAL\<close>; else the repetition scan
  decides between \<open>RESULT_THREEFOLD\<close> and \<open>RESULT_NONE\<close>. The bound on the counter is the
  one game_result asserts of its positions (\<^verbatim>\<open>assert(pos->rule50 == 100)\<close> where the counter
  is at least 100): a game is over when the counter reaches 100, so no position made by
  playing has a higher one.
\<close>

theorem game_result_priority:
  assumes "ply g < length (pos g)" and "p = pos g ! ply g" and "moves = gen_all_moves ch p"
    and "rule50 p \<le> 100"
  shows "(moves = [] \<longrightarrow>
            game_result ch g =
              Inr (if checkers p \<noteq> 0 then RESULT_CHECKMATE else RESULT_STALEMATE, moves)) \<and>
         (moves \<noteq> [] \<and> 100 \<le> rule50 p \<longrightarrow>
            game_result ch g = Inr (RESULT_FIFTY_MOVES, moves)) \<and>
         (moves \<noteq> [] \<and> rule50 p < 100 \<and> pos_insufficient_material ch p \<longrightarrow>
            game_result ch g = Inr (RESULT_INSUFFICIENT_MATERIAL, moves)) \<and>
         (moves \<noteq> [] \<and> rule50 p < 100 \<and> \<not> pos_insufficient_material ch p \<longrightarrow>
            game_result ch g =
              Inr (if scan_repetitions g p 4 1 then RESULT_THREEFOLD else RESULT_NONE, moves))"
  using assms by (simp add: game_result_def Let_def)

theorem game_result_priority_witness:
  "game_result demo_chess (demo_game [demo_position WHITE 100 1 0 9] RESULT_NONE)
     = Inr (RESULT_CHECKMATE, []) \<and>
   game_result demo_chess (demo_game [demo_position WHITE 100 0 0 9] RESULT_NONE)
     = Inr (RESULT_STALEMATE, []) \<and>
   game_result demo_chess (demo_game [demo_position WHITE 100 0 0 1] RESULT_NONE)
     = Inr (RESULT_FIFTY_MOVES, [1, 2, 9]) \<and>
   game_result demo_chess (demo_game [demo_position WHITE 8 0 0 1] RESULT_NONE)
     = Inr (RESULT_INSUFFICIENT_MATERIAL, [1, 2, 9]) \<and>
   game_result demo_chess demo_threefold = Inr (RESULT_THREEFOLD, [1, 2, 9]) \<and>
   game_result demo_chess (demo_game [demo_position WHITE 0 0 5 1] RESULT_NONE)
     = Inr (RESULT_NONE, [1, 2, 9])"
  using game_result_priority [of "demo_game [demo_position WHITE 100 1 0 9] RESULT_NONE" _ _ demo_chess, OF _ refl refl]
    game_result_priority [of "demo_game [demo_position WHITE 100 0 0 9] RESULT_NONE" _ _ demo_chess, OF _ refl refl]
    game_result_priority [of "demo_game [demo_position WHITE 100 0 0 1] RESULT_NONE" _ _ demo_chess, OF _ refl refl]
    game_result_priority [of "demo_game [demo_position WHITE 8 0 0 1] RESULT_NONE" _ _ demo_chess, OF _ refl refl]
    game_result_priority [of demo_threefold _ _ demo_chess, OF _ refl refl]
    game_result_priority [of "demo_game [demo_position WHITE 0 0 5 1] RESULT_NONE" _ _ demo_chess, OF _ refl refl]
  by (simp add: demo_game_def demo_position_def demo_chess_def demo_threefold_def scan_repetitions.simps)

text \<open>
  C6. With legal moves, a 50-move counter below 100 and sufficient material, game_result
  returns \<open>RESULT_THREEFOLD\<close> exactly when at least two of the positions 2, 4, 6, ... plies
  before the current one, no further back than the 50-move counter and the start of the
  game, have the key of the current position. This is for a history in which the position
  two plies back, where there is one within the bounds, does not have the current key: after
  one move by each side the position is never the one before them, and the loop of
  game_result starts four plies back for that reason.
\<close>

theorem game_result_threefold:
  assumes "ply g < length (pos g)" and "p = pos g ! ply g"
    and "gen_all_moves ch p \<noteq> []" and "rule50 p < 100"
    and "\<not> pos_insufficient_material ch p"
    and "2 \<le> rule50 p \<and> 2 \<le> ply g \<longrightarrow> key (pos g ! (ply g - 2)) \<noteq> key p"
  shows "game_result ch g = Inr (RESULT_THREEFOLD, gen_all_moves ch p) \<longleftrightarrow>
         2 \<le> card {i. even i \<and> 2 \<le> i \<and> i \<le> rule50 p \<and> i \<le> ply g \<and>
                       key (pos g ! (ply g - i)) = key p}"
  unfolding scan_from_two [OF assms(6)] using assms(1-5) by (rule game_result_scan)

theorem game_result_threefold_witness:
  "ply demo_threefold < length (pos demo_threefold) \<and>
   gen_all_moves demo_chess (pos demo_threefold ! ply demo_threefold) \<noteq> [] \<and>
   rule50 (pos demo_threefold ! ply demo_threefold) < 100 \<and>
   \<not> pos_insufficient_material demo_chess (pos demo_threefold ! ply demo_threefold) \<and>
   key (pos demo_threefold ! (ply demo_threefold - 2)) \<noteq> key (pos demo_threefold ! ply demo_threefold) \<and>
   game_result demo_chess demo_threefold = Inr (RESULT_THREEFOLD, [1, 2, 9]) \<and>
   2 \<le> card {i. even i \<and> 2 \<le> i \<and> i \<le> rule50 (pos demo_threefold ! ply demo_threefold) \<and> i \<le> ply demo_threefold \<and>
                 key (pos demo_threefold ! (ply demo_threefold - i)) = key (pos demo_threefold ! ply demo_threefold)} \<and>
   game_result demo_chess demo_once = Inr (RESULT_NONE, [1, 2, 9]) \<and>
   \<not> 2 \<le> card {i. even i \<and> 2 \<le> i \<and> i \<le> rule50 (pos demo_once ! ply demo_once) \<and> i \<le> ply demo_once \<and>
                 key (pos demo_once ! (ply demo_once - i)) = key (pos demo_once ! ply demo_once)}"
proof -
  have h1: "ply demo_threefold < length (pos demo_threefold)"
    by (simp add: demo_threefold_def demo_game_def)
  have h2: "gen_all_moves demo_chess (pos demo_threefold ! ply demo_threefold) \<noteq> []"
    by (simp add: demo_threefold_def demo_game_def demo_position_def demo_chess_def)
  have h3: "rule50 (pos demo_threefold ! ply demo_threefold) < 100"
    by (simp add: demo_threefold_def demo_game_def demo_position_def)
  have h4: "\<not> pos_insufficient_material demo_chess (pos demo_threefold ! ply demo_threefold)"
    by (simp add: demo_threefold_def demo_game_def demo_position_def demo_chess_def)
  have h5: "key (pos demo_threefold ! (ply demo_threefold - 2)) \<noteq> key (pos demo_threefold ! ply demo_threefold)"
    by (simp add: demo_threefold_def demo_game_def demo_position_def)
  have mv: "gen_all_moves demo_chess (pos demo_threefold ! ply demo_threefold) = [1, 2, 9]"
    by (simp add: demo_threefold_def demo_game_def demo_position_def demo_chess_def)
  have r: "game_result demo_chess demo_threefold = Inr (RESULT_THREEFOLD, [1, 2, 9])"
    by (simp add: demo_threefold_def game_result_def demo_game_def demo_position_def demo_chess_def
        scan_repetitions.simps)
  from game_result_threefold [OF h1 refl h2 h3 h4] h5 r mv
  have A: "2 \<le> card {i. even i \<and> 2 \<le> i \<and> i \<le> rule50 (pos demo_threefold ! ply demo_threefold) \<and> i \<le> ply demo_threefold \<and>
                 key (pos demo_threefold ! (ply demo_threefold - i)) = key (pos demo_threefold ! ply demo_threefold)}"
    by simp
  have k1: "ply demo_once < length (pos demo_once)"
    by (simp add: demo_once_def demo_game_def)
  have k2: "gen_all_moves demo_chess (pos demo_once ! ply demo_once) \<noteq> []"
    by (simp add: demo_once_def demo_game_def demo_position_def demo_chess_def)
  have k3: "rule50 (pos demo_once ! ply demo_once) < 100"
    by (simp add: demo_once_def demo_game_def demo_position_def)
  have k4: "\<not> pos_insufficient_material demo_chess (pos demo_once ! ply demo_once)"
    by (simp add: demo_once_def demo_game_def demo_position_def demo_chess_def)
  have k5: "key (pos demo_once ! (ply demo_once - 2)) \<noteq> key (pos demo_once ! ply demo_once)"
    by (simp add: demo_once_def demo_game_def demo_position_def)
  have s: "game_result demo_chess demo_once = Inr (RESULT_NONE, [1, 2, 9])"
    by (simp add: demo_once_def game_result_def demo_game_def demo_position_def demo_chess_def
        scan_repetitions.simps)
  from game_result_threefold [OF k1 refl k2 k3 k4] k5 s
  have B: "\<not> 2 \<le> card {i. even i \<and> 2 \<le> i \<and> i \<le> rule50 (pos demo_once ! ply demo_once) \<and> i \<le> ply demo_once \<and>
                 key (pos demo_once ! (ply demo_once - i)) = key (pos demo_once ! ply demo_once)}"
    by simp
  from h1 h2 h3 h4 h5 r A s B show ?thesis by blast
qed

subsection \<open>The position command\<close>

text \<open>
  C8. On a game whose current slot is initialised, uci_position_command builds
  \<open>position fen\<close> and the FEN of position \<open>p0 = max (ply - rule50) 0\<close>, the counter
  being that of the current position; exactly when \<open>p0 < ply\<close> it appends \<open>moves\<close> and,
  for each ply from \<open>p0 + 1\<close> to \<open>ply\<close>, a space and the LAN of that ply's move,
  linearized against the position before it with the chess960 flag.
\<close>

theorem uci_position_command_string:
  assumes "ply g < length (pos g)"
    and "p0 = nat (max (int (ply g) - int (rule50 (pos g ! ply g))) 0)"
  shows "uci_position_command ch g =
     Inr (''position fen '' @ pos_get ch (pos g ! p0) @
          (if p0 < ply g then
             '' moves'' @
             concat (map (\<lambda>k. '' '' @ pos_move_to_lan ch (pos g ! (k - 1)) (lastMove (pos g ! k))
                                        (chess960 (go g)))
                         [p0 + 1 ..< ply g + 1])
           else []))"
proof -
  have le: "p0 \<le> ply g" using assms(2) by simp
  show ?thesis
  proof (cases "p0 < ply g")
    case True
    then have "p0 + 1 \<le> Suc (ply g)" by simp
    from position_moves_eq [OF this] True assms show ?thesis
      by (simp add: uci_position_command_def Let_def)
  next
    case False
    with assms show ?thesis
      by (simp add: uci_position_command_def Let_def)
  qed
qed

theorem uci_position_command_string_witness:
  "ply demo_history < length (pos demo_history) \<and>
   uci_position_command demo_chess demo_history = Inr ''position fen w moves a c'' \<and>
   uci_position_command demo_chess (demo_game [demo_position BLACK 3 0 5 0] RESULT_NONE)
     = Inr ''position fen b+++''"
proof -
  have h: "ply demo_history < length (pos demo_history)"
    by (simp add: demo_history_def demo_game_def)
  have h': "ply (demo_game [demo_position BLACK 3 0 5 0] RESULT_NONE)
      < length (pos (demo_game [demo_position BLACK 3 0 5 0] RESULT_NONE))"
    by (simp add: demo_game_def)
  have "[3 ..< 5] = [3, 4 :: nat]" by (simp add: upt_rec)
  with uci_position_command_string [OF h refl, of demo_chess]
  have a: "uci_position_command demo_chess demo_history = Inr ''position fen w moves a c''"
    by (simp add: demo_history_def demo_game_def demo_position_def demo_chess_def)
  from uci_position_command_string [OF h' refl, of demo_chess]
  have b: "uci_position_command demo_chess (demo_game [demo_position BLACK 3 0 5 0] RESULT_NONE)
     = Inr ''position fen b+++''"
    by (simp add: demo_game_def demo_position_def demo_chess_def numeral_3_eq_3)
  from h a b show ?thesis by blast
qed

subsection \<open>Decoding the result\<close>

text \<open>
  C7, as amended. On a game whose current slot is initialised, game_decode_result maps the
  result tags as follows: \<open>NONE\<close> to \<open>*\<close> and \<open>unterminated\<close>; the five draws to
  \<open>1/2-1/2\<close> with their reasons; \<open>CHECKMATE\<close>, \<open>ILLEGAL_MOVE\<close> and \<open>RESIGN\<close> to
  \<open>0-1\<close> if White is to move and \<open>1-0\<close> otherwise, with the reasons \<open>checkmate\<close>,
  \<open>illegal move\<close> and \<open>white resigns\<close> or \<open>black resigns\<close>. \<open>TIME_LOSS\<close> has no
  branch: it ends in \<^verbatim>\<open>assert(false)\<close>.
\<close>

theorem game_decode_result_table:
  assumes "ply g < length (pos g)"
  shows "game_decode_result g =
    (case result g of
       RESULT_NONE \<Rightarrow> Inr (''*'', ''unterminated'')
     | RESULT_CHECKMATE \<Rightarrow>
         Inr (if turn (pos g ! ply g) = WHITE then ''0-1'' else ''1-0'', ''checkmate'')
     | RESULT_STALEMATE \<Rightarrow> Inr (''1/2-1/2'', ''stalemate'')
     | RESULT_THREEFOLD \<Rightarrow> Inr (''1/2-1/2'', ''3 repetitions'')
     | RESULT_FIFTY_MOVES \<Rightarrow> Inr (''1/2-1/2'', ''50 move rule'')
     | RESULT_INSUFFICIENT_MATERIAL \<Rightarrow> Inr (''1/2-1/2'', ''insufficient material'')
     | RESULT_ILLEGAL_MOVE \<Rightarrow>
         Inr (if turn (pos g ! ply g) = WHITE then ''0-1'' else ''1-0'', ''illegal move'')
     | RESULT_TIME_LOSS \<Rightarrow> Inl Assert_failed
     | RESULT_DRAW_ADJUDICATION \<Rightarrow> Inr (''1/2-1/2'', ''draw by adjudication'')
     | RESULT_RESIGN \<Rightarrow>
         Inr (if turn (pos g ! ply g) = WHITE then ''0-1'' else ''1-0'',
              if turn (pos g ! ply g) = WHITE then ''white resigns'' else ''black resigns''))"
  using assms by (cases "result g") (simp_all add: game_decode_result_def loser_to_move_def)

theorem game_decode_result_table_witness:
  "game_decode_result (demo_game [demo_position WHITE 0 1 5 9] RESULT_CHECKMATE)
     = Inr (''0-1'', ''checkmate'') \<and>
   game_decode_result (demo_game [demo_position WHITE 0 0 5 1, demo_position BLACK 1 0 6 1]
      RESULT_RESIGN) = Inr (''1-0'', ''black resigns'') \<and>
   game_decode_result (demo_game [demo_position WHITE 0 0 5 1] RESULT_TIME_LOSS)
     = Inl Assert_failed"
  using game_decode_result_table [of "demo_game [demo_position WHITE 0 1 5 9] RESULT_CHECKMATE"]
    game_decode_result_table [of "demo_game [demo_position WHITE 0 0 5 1, demo_position BLACK 1 0 6 1]
      RESULT_RESIGN"]
    game_decode_result_table [of "demo_game [demo_position WHITE 0 0 5 1] RESULT_TIME_LOSS"]
  by (simp add: demo_game_def demo_position_def)

text \<open>
  C7 as stated fails for \<open>TIME_LOSS\<close>: with White to move, the call does not return
  \<open>0-1\<close> and \<open>time loss\<close>; the assertion fails.
\<close>

theorem game_decode_result_time_loss_counterexample:
  "result (demo_game [demo_position WHITE 0 0 5 1] RESULT_TIME_LOSS) = RESULT_TIME_LOSS \<and>
   turn (pos (demo_game [demo_position WHITE 0 0 5 1] RESULT_TIME_LOSS) ! 0) = WHITE \<and>
   game_decode_result (demo_game [demo_position WHITE 0 0 5 1] RESULT_TIME_LOSS)
     \<noteq> Inr (''0-1'', ''time loss'') \<and>
   game_decode_result (demo_game [demo_position WHITE 0 0 5 1] RESULT_TIME_LOSS)
     = Inl Assert_failed"
  by (simp add: game_decode_result_def demo_game_def demo_position_def)

section \<open>Properties of engine.c\<close>

subsection \<open>Lines as lists of tokens\<close>

lemma word_after_spaces:
  assumes "dropWhile (\<lambda>c. c = x) s \<noteq> []"
  shows "takeWhile (\<lambda>c. c \<noteq> x) (dropWhile (\<lambda>c. c = x) s) \<noteq> []"
proof -
  from assms have "\<not> hd (dropWhile (\<lambda>c. c = x) s) = x"
    using hd_dropWhile [of "\<lambda>c. c = x" s] by simp
  with assms show ?thesis
    by (cases "dropWhile (\<lambda>c. c = x) s") simp_all
qed

lemma tokens_Nil_iff: "tokens s = [] \<longleftrightarrow> dropWhile (\<lambda>c. c = CHR '' '') s = []"
  by (subst tokens.simps) (simp only: Let_def if_distrib [of "\<lambda>x. x = []"] list.simps if_cancel
      split: if_splits, blast)

lemma str_tok_Nil:
  assumes "tokens s = []"
  shows "str_tok (Some s) tok '' '' = (None, [])"
proof -
  from assms have d: "dropWhile (\<lambda>c. c = CHR '' '') s = []"
    by (simp only: tokens_Nil_iff)
  show ?thesis
    by (simp add: str_tok_def Let_def d)
qed

lemma str_tok_None: "str_tok None tok delim = (None, tok)"
  by (simp add: str_tok_def)

lemma str_tok_Cons:
  assumes "tokens s = w # ws"
  shows "\<exists>rest. (\<forall>tok. str_tok (Some s) tok '' '' = (Some rest, w)) \<and> tokens rest = ws"
proof -
  define s' where "s' = dropWhile (\<lambda>c. c = CHR '' '') s"
  have ne: "s' \<noteq> []"
    using assms tokens_Nil_iff [of s] unfolding s'_def by simp
  have "tokens s = takeWhile (\<lambda>c. c \<noteq> CHR '' '') s' # tokens (dropWhile (\<lambda>c. c \<noteq> CHR '' '') s')"
    using ne unfolding s'_def by (subst tokens.simps) (simp only: Let_def if_False)
  with assms have w: "w = takeWhile (\<lambda>c. c \<noteq> CHR '' '') s'"
    and ws: "ws = tokens (dropWhile (\<lambda>c. c \<noteq> CHR '' '') s')"
    by simp_all
  have wne: "takeWhile (\<lambda>c. c \<noteq> CHR '' '') s' \<noteq> []"
    using ne word_after_spaces [of "CHR '' ''" s] unfolding s'_def by simp
  have "str_tok (Some s) tok '' '' =
          (if takeWhile (\<lambda>c. c \<noteq> CHR '' '') s' = [] then None
           else Some (dropWhile (\<lambda>c. c \<noteq> CHR '' '') s'), takeWhile (\<lambda>c. c \<noteq> CHR '' '') s')"
    for tok unfolding str_tok_def s'_def by (simp add: Let_def)
  with wne w ws show ?thesis by simp
qed

lemma find_score_step:
  "str_tok (Some s) tok '' '' = (tail', token') \<Longrightarrow>
   find_score (Some s) tok =
     (if tail' \<noteq> None \<and> token' \<noteq> ''score'' then find_score tail' token' else (tail', token'))"
  by (subst find_score.simps) simp

lemma find_score_exhausted:
  "dropWhile (\<lambda>x. x \<noteq> ''score'') (tokens s) = [] \<Longrightarrow> find_score (Some s) tok = (None, [])"
proof (induction "tokens s" arbitrary: s tok)
  case Nil
  from str_tok_Nil [OF Nil(1) [symmetric], of tok] show ?case
    by (simp add: find_score_step)
next
  case (Cons w ws)
  from str_tok_Cons [OF Cons(2) [symmetric]] obtain rest where
    r: "str_tok (Some s) tok '' '' = (Some rest, w)" "tokens rest = ws" by blast
  from Cons(3) Cons(2) [symmetric] have ne: "w \<noteq> ''score''"
    and d: "dropWhile (\<lambda>x. x \<noteq> ''score'') (tokens rest) = []"
    using r(2) by (auto split: if_splits)
  from Cons(1) [OF r(2) [symmetric] d, of w] ne r(1) show ?case
    by (simp add: find_score_step)
qed

lemma find_score_hit:
  "dropWhile (\<lambda>x. x \<noteq> ''score'') (tokens s) = w # ws \<Longrightarrow>
   \<exists>rest. find_score (Some s) tok = (Some rest, ''score'') \<and> tokens rest = ws"
proof (induction "tokens s" arbitrary: s tok)
  case Nil
  then show ?case by simp
next
  case (Cons v vs)
  from str_tok_Cons [OF Cons(2) [symmetric]] obtain rest where
    r: "str_tok (Some s) tok '' '' = (Some rest, v)" "tokens rest = vs" by blast
  show ?case
  proof (cases "v = ''score''")
    case True
    with Cons(3) Cons(2) [symmetric] have "ws = vs" by simp
    with True r show ?thesis
      by (simp add: find_score_step)
  next
    case False
    with Cons(3) Cons(2) [symmetric] r(2)
    have d: "dropWhile (\<lambda>x. x \<noteq> ''score'') (tokens rest) = w # ws" by simp
    from Cons(1) [OF r(2) [symmetric] d, of v] False r(1) show ?thesis
      by (simp add: find_score_step)
  qed
qed

lemma parse_score_tokens:
  assumes "tokens rest = us"
  shows "parse_score (Some rest) u = score_value (u # us)"
proof (cases us)
  case Nil
  with assms have "str_tok (Some rest) tok '' '' = (None, [])" for tok
    by (simp add: str_tok_Nil)
  with Nil show ?thesis
    by (simp add: parse_score_def score_value_def str_tok_None)
next
  case (Cons n ns)
  with assms str_tok_Cons [of rest n ns] obtain rest' where
    "\<And>tok. str_tok (Some rest) tok '' '' = (Some rest', n)" by blast
  with Cons show ?thesis
    by (simp add: parse_score_def score_value_def)
qed

lemma bestmove_line_tokens:
  "bestmove_line line sc b =
     (case tokens line of
        [] \<Rightarrow> Inr (False, sc, b)
      | w # ws \<Rightarrow>
          if w = ''info'' then
            (if score_record line = [] then Inr (False, sc, b)
             else bind_err (score_value (score_record line)) (\<lambda>sc'. Inr (False, sc', b)))
          else if w = ''bestmove'' then
            (case ws of [] \<Rightarrow> Inr (False, sc, b) | mv # _ \<Rightarrow> Inr (True, sc, mv))
          else Inr (False, sc, b))"
proof (cases "tokens line")
  case Nil
  with str_tok_Nil [of line "[]"] show ?thesis
    by (simp add: bestmove_line_def)
next
  case (Cons w ws)
  from str_tok_Cons [OF Cons] obtain rest where
    r: "str_tok (Some line) [] '' '' = (Some rest, w)" "tokens rest = ws" by blast
  show ?thesis
  proof (cases "w = ''info''")
    case info: True
    show ?thesis
    proof (cases "dropWhile (\<lambda>x. x \<noteq> ''score'') ws")
      case Nil
      with find_score_exhausted [of rest w] r(2)
      have "find_score (Some rest) w = (None, [])" by simp
      moreover have "score_record line = []"
        by (simp add: score_record_def \<open>tokens line = w # ws\<close> info Nil)
      ultimately show ?thesis
        using \<open>tokens line = w # ws\<close> info r
        by (simp add: bestmove_line_def str_tok_None)
    next
      case (Cons v vs)
      with find_score_hit [of rest v vs w] r(2) obtain rest1 where
        f: "find_score (Some rest) w = (Some rest1, ''score'')" "tokens rest1 = vs" by auto
      have sr: "score_record line = vs"
        using \<open>tokens line = w # ws\<close> info Cons by (simp add: score_record_def)
      show ?thesis
      proof (cases vs)
        case Nil
        with f(2) have "str_tok (Some rest1) ''score'' '' '' = (None, [])"
          by (simp add: str_tok_Nil)
        with Nil sr f r info \<open>tokens line = w # ws\<close> show ?thesis
          by (simp add: bestmove_line_def)
      next
        case (Cons u us)
        with f(2) str_tok_Cons [of rest1 u us] obtain rest2 where
          t: "str_tok (Some rest1) ''score'' '' '' = (Some rest2, u)" "tokens rest2 = us" by blast
        from parse_score_tokens [OF t(2), of u] Cons sr f r info t \<open>tokens line = w # ws\<close>
        show ?thesis
          by (simp add: bestmove_line_def)
      qed
    qed
  next
    case noinfo: False
    show ?thesis
    proof (cases ws)
      case Nil
      with r(2) have "str_tok (Some rest) tok '' '' = (None, [])" for tok
        by (simp add: str_tok_Nil)
      with Nil \<open>tokens line = w # ws\<close> noinfo r show ?thesis
        by (simp add: bestmove_line_def)
    next
      case (Cons mv ms)
      with r(2) str_tok_Cons [of rest mv ms] obtain rest' where
        "\<And>tok. str_tok (Some rest) tok '' '' = (Some rest', mv)" by blast
      with Cons \<open>tokens line = w # ws\<close> noinfo r show ?thesis
        by (simp add: bestmove_line_def)
    qed
  qed
qed

lemma bestmove_line_found:
  assumes "bestmove_line line sc b = Inr (True, sc', b')"
  shows "bestmove_reply line = Some b'" and "sc' = sc"
  using assms unfolding bestmove_line_tokens bestmove_reply_def
  by (auto simp: bind_err_def split: list.splits if_splits sum.splits)

lemma bestmove_line_not_found:
  assumes "bestmove_line line sc b = Inr (False, sc', b')"
  shows "bestmove_reply line = None" and "b' = b" and "score_record line = [] \<Longrightarrow> sc' = sc"
  using assms unfolding bestmove_line_tokens bestmove_reply_def score_record_def
  by (auto simp: bind_err_def split: list.splits if_splits sum.splits)

subsection \<open>The loops of the request\<close>

lemma bind_err_Inr:
  "bind_err m f = Inr y \<longleftrightarrow> (\<exists>x. m = Inr x \<and> f x = Inr y)"
  by (cases m) (simp_all add: bind_err_def)

lemma engine_readln_Inr:
  assumes "engine_readln e = Inr (line, e')"
  shows "inp e = line # inp e'" and "trace e' = trace e @ [Received line]"
  using assms by (auto simp: engine_readln_def split: list.splits option.splits if_splits)

lemma engine_writeln_Inr:
  assumes "engine_writeln e buf = Inr e'"
  shows "inp e' = inp e" and "trace e' = trace e @ [Sent buf]"
  using assms by (auto simp: engine_writeln_def split: option.splits if_splits)

lemma bestmove_loop_unfold:
  "bestmove_loop msec d e t left sc b = Inr r \<Longrightarrow>
   (\<not> 0 \<le> left \<and> r = \<lparr>found = False, score = sc, timeLeft = left, best = b, engine = e, ticks = t\<rparr>) \<or>
   (0 \<le> left \<and> (\<exists>line e' res sc' b'. engine_readln e = Inr (line, e') \<and>
       bestmove_line line sc b = Inr (res, sc', b') \<and>
       (if res then r = \<lparr>found = True, score = sc', timeLeft = d - msec t, best = b',
                         engine = e', ticks = t + 1\<rparr>
        else bestmove_loop msec d e' (t + 1) (d - msec t) sc' b' = Inr r)))"
  by (subst (asm) bestmove_loop.simps) (auto split: if_splits sum.splits prod.splits)

lemma bestmove_loop_run:
  "bestmove_loop msec d e t left sc b = Inr r \<Longrightarrow>
   \<exists>pre. (\<forall>l\<in>set pre. bestmove_reply l = None) \<and>
         (\<forall>j<length pre. 0 \<le> loop_left msec d t left j) \<and>
         ((\<forall>l\<in>set pre. score_record l = []) \<longrightarrow> score r = sc) \<and>
         (if found r then
            \<exists>line. inp e = pre @ line # inp (engine r) \<and> bestmove_reply line = Some (best r) \<and>
                   0 \<le> loop_left msec d t left (length pre) \<and>
                   trace (engine r) = trace e @ map Received (pre @ [line])
          else inp e = pre @ inp (engine r) \<and> loop_left msec d t left (length pre) < 0 \<and>
               timeLeft r = loop_left msec d t left (length pre) \<and> best r = b \<and>
               trace (engine r) = trace e @ map Received pre)"
proof (induction msec d e t left sc b rule: bestmove_loop.induct)
  case (1 msec d e t left sc b)
  from bestmove_loop_unfold [OF "1.prems"] show ?case
  proof (elim disjE conjE exE)
    assume "\<not> 0 \<le> left"
      and "r = \<lparr>found = False, score = sc, timeLeft = left, best = b, engine = e, ticks = t\<rparr>"
    then show ?thesis
      by (intro exI [of _ "[]"]) (simp add: loop_left_def)
  next
    fix line e' res sc' b'
    assume left: "0 \<le> left" and rd: "engine_readln e = Inr (line, e')"
      and ln: "bestmove_line line sc b = Inr (res, sc', b')"
      and rest: "if res then r = \<lparr>found = True, score = sc', timeLeft = d - msec t, best = b',
                         engine = e', ticks = t + 1\<rparr>
        else bestmove_loop msec d e' (t + 1) (d - msec t) sc' b' = Inr r"
    note io = engine_readln_Inr [OF rd]
    show ?thesis
    proof (cases res)
      case True
      with rest ln bestmove_line_found [of line sc b sc' b'] io left show ?thesis
        by (intro exI [of _ "[]"]) (simp add: loop_left_def)
    next
      case False
      with rest have rec: "bestmove_loop msec d e' (t + 1) (d - msec t) sc' b' = Inr r" by simp
      from False ln have ln': "bestmove_line line sc b = Inr (False, sc', b')" by simp
      note nf = bestmove_line_not_found [OF ln']
      have shift: "loop_left msec d (t + 1) (d - msec t) j = loop_left msec d t left (Suc j)" for j
        by (simp add: loop_left_def)
      from "1.IH" [OF left rd refl ln refl refl False rec] obtain pre where
        p: "\<forall>l\<in>set pre. bestmove_reply l = None"
          "\<forall>j<length pre. 0 \<le> loop_left msec d (t + 1) (d - msec t) j"
          "(\<forall>l\<in>set pre. score_record l = []) \<longrightarrow> score r = sc'"
          "if found r then
            \<exists>line. inp e' = pre @ line # inp (engine r) \<and> bestmove_reply line = Some (best r) \<and>
                   0 \<le> loop_left msec d (t + 1) (d - msec t) (length pre) \<and>
                   trace (engine r) = trace e' @ map Received (pre @ [line])
          else inp e' = pre @ inp (engine r) \<and>
               loop_left msec d (t + 1) (d - msec t) (length pre) < 0 \<and>
               timeLeft r = loop_left msec d (t + 1) (d - msec t) (length pre) \<and> best r = b' \<and>
               trace (engine r) = trace e' @ map Received pre"
        by blast
      have a: "\<forall>l\<in>set (line # pre). bestmove_reply l = None"
        using p(1) nf(1) by simp
      have b: "\<forall>j<length (line # pre). 0 \<le> loop_left msec d t left j"
      proof (intro allI impI)
        fix j assume "j < length (line # pre)"
        then show "0 \<le> loop_left msec d t left j"
          using p(2) left shift by (cases j) (simp_all add: loop_left_def)
      qed
      have c: "(\<forall>l\<in>set (line # pre). score_record l = []) \<longrightarrow> score r = sc"
        using p(3) nf(3) by simp
      have d: "if found r then
            \<exists>ln. inp e = (line # pre) @ ln # inp (engine r) \<and> bestmove_reply ln = Some (best r) \<and>
                   0 \<le> loop_left msec d t left (length (line # pre)) \<and>
                   trace (engine r) = trace e @ map Received ((line # pre) @ [ln])
          else inp e = (line # pre) @ inp (engine r) \<and>
               loop_left msec d t left (length (line # pre)) < 0 \<and>
               timeLeft r = loop_left msec d t left (length (line # pre)) \<and> best r = b \<and>
               trace (engine r) = trace e @ map Received (line # pre)"
        using p(4) io nf(2) shift [of "length pre"] by (auto split: if_splits)
      from a b c d show ?thesis by blast
    qed
  qed
qed

lemma drain_loop_run:
  "drain_loop e = Inr e' \<Longrightarrow>
   \<exists>drained last. inp e = drained @ last # inp e' \<and> take 9 last = ''bestmove '' \<and>
       (\<forall>l\<in>set drained. take 9 l \<noteq> ''bestmove '') \<and>
       trace e' = trace e @ map Received (drained @ [last])"
proof (induction e rule: drain_loop.induct)
  case (1 e)
  from "1.prems" obtain line e1 where rd: "engine_readln e = Inr (line, e1)"
    and rest: "if take 9 line = ''bestmove '' then e' = e1 else drain_loop e1 = Inr e'"
    by (subst (asm) drain_loop.simps) (auto split: sum.splits if_splits)
  note io = engine_readln_Inr [OF rd]
  show ?case
  proof (cases "take 9 line = ''bestmove ''")
    case True
    with rest io show ?thesis
      by (intro exI [of _ "[]"] exI [of _ line]) simp
  next
    case False
    with rest have "drain_loop e1 = Inr e'" by simp
    from "1.IH" [OF rd refl False this] obtain drained last where
      "inp e1 = drained @ last # inp e'" "take 9 last = ''bestmove ''"
      "\<forall>l\<in>set drained. take 9 l \<noteq> ''bestmove ''"
      "trace e' = trace e1 @ map Received (drained @ [last])"
      by blast
    with io False show ?thesis
      by (intro exI [of _ "line # drained"] exI [of _ last]) simp
  qed
qed

lemma engine_readln_ok:
  assumes "streams_ok e" and "inp e = l # ls"
  shows "\<exists>e'. engine_readln e = Inr (l, e') \<and> streams_ok e' \<and> inp e' = ls \<and>
              trace e' = trace e @ [Received l]"
  using assms by (auto simp: engine_readln_def streams_ok_def split: option.splits)

lemma engine_writeln_ok:
  assumes "streams_ok e"
  shows "\<exists>e'. engine_writeln e buf = Inr e' \<and> streams_ok e' \<and> inp e' = inp e \<and>
              trace e' = trace e @ [Sent buf]"
  using assms by (auto simp: engine_writeln_def streams_ok_def split: option.splits)

lemma drain_loop_total:
  "streams_ok e \<Longrightarrow> inp e = drained @ lst # rest \<Longrightarrow>
   \<forall>l\<in>set drained. take 9 l \<noteq> ''bestmove '' \<Longrightarrow> take 9 lst = ''bestmove '' \<Longrightarrow>
   \<exists>e'. drain_loop e = Inr e' \<and> inp e' = rest \<and>
        trace e' = trace e @ map Received drained @ [Received lst]"
proof (induction drained arbitrary: e)
  case Nil
  then have "inp e = lst # rest" by simp
  from engine_readln_ok [OF Nil(1) this] obtain e' where
    "engine_readln e = Inr (lst, e')" "inp e' = rest" "trace e' = trace e @ [Received lst]"
    by blast
  with Nil(4) show ?case
    by (subst drain_loop.simps) simp
next
  case (Cons l ls)
  then have "inp e = l # (ls @ lst # rest)" by simp
  from engine_readln_ok [OF Cons.prems(1) this] obtain e1 where
    rd: "engine_readln e = Inr (l, e1)" and ok: "streams_ok e1"
    and i: "inp e1 = ls @ lst # rest" and tr: "trace e1 = trace e @ [Received l]"
    by blast
  from Cons.prems(3) have no: "take 9 l \<noteq> ''bestmove ''" and rest: "\<forall>l\<in>set ls. take 9 l \<noteq> ''bestmove ''"
    by simp_all
  from Cons.IH [OF ok i rest Cons.prems(4)] obtain e' where
    "drain_loop e1 = Inr e'" "inp e' = rest"
    "trace e' = trace e1 @ map Received ls @ [Received lst]"
    by blast
  with rd no tr show ?case
    by (subst drain_loop.simps) simp
qed

lemma bestmove_line_passes:
  assumes "bestmove_reply l = None"
    and "score_record l = [] \<or> (\<exists>v. score_value (score_record l) = Inr v)"
  shows "\<exists>sc'. bestmove_line l sc b = Inr (False, sc', b)"
  using assms unfolding bestmove_line_tokens bestmove_reply_def
  by (auto simp: bind_err_def split: list.splits if_splits)

lemma bestmove_loop_total:
  "streams_ok e \<Longrightarrow> inp e = pre @ rest \<Longrightarrow>
   \<forall>l\<in>set pre. bestmove_reply l = None \<and>
       (score_record l = [] \<or> (\<exists>v. score_value (score_record l) = Inr v)) \<Longrightarrow>
   \<forall>j<length pre. 0 \<le> loop_left msec d t left j \<Longrightarrow>
   loop_left msec d t left (length pre) < 0 \<Longrightarrow>
   \<exists>r. bestmove_loop msec d e t left sc b = Inr r \<and> \<not> found r \<and> inp (engine r) = rest \<and>
       streams_ok (engine r) \<and> trace (engine r) = trace e @ map Received pre"
proof (induction pre arbitrary: e t left sc)
  case Nil
  then have "left < 0" by (simp add: loop_left_def)
  with Nil show ?case
    by (subst bestmove_loop.simps) simp
next
  case (Cons l ls)
  from Cons.prems(4) [rule_format, of 0] have left: "0 \<le> left" by (simp add: loop_left_def)
  from Cons.prems(2) have "inp e = l # (ls @ rest)" by simp
  from engine_readln_ok [OF Cons.prems(1) this] obtain e1 where
    rd: "engine_readln e = Inr (l, e1)" and ok: "streams_ok e1"
    and i: "inp e1 = ls @ rest" and tr: "trace e1 = trace e @ [Received l]"
    by blast
  from Cons.prems(3) have "bestmove_reply l = None"
    "score_record l = [] \<or> (\<exists>v. score_value (score_record l) = Inr v)"
    by simp_all
  from bestmove_line_passes [OF this] obtain sc' where
    ln: "bestmove_line l sc b = Inr (False, sc', b)" by blast
  have shift: "loop_left msec d (t + 1) (d - msec t) j = loop_left msec d t left (Suc j)" for j
    by (simp add: loop_left_def)
  have a: "\<forall>l\<in>set ls. bestmove_reply l = None \<and>
       (score_record l = [] \<or> (\<exists>v. score_value (score_record l) = Inr v))"
    using Cons.prems(3) by simp
  have b: "\<forall>j<length ls. 0 \<le> loop_left msec d (t + 1) (d - msec t) j"
    using Cons.prems(4) shift by auto
  have c: "loop_left msec d (t + 1) (d - msec t) (length ls) < 0"
    using Cons.prems(5) shift by simp
  from Cons.IH [OF ok i a b c, of sc'] obtain r where
    "bestmove_loop msec d e1 (t + 1) (d - msec t) sc' b = Inr r" "\<not> found r"
    "inp (engine r) = rest" "streams_ok (engine r)"
    "trace (engine r) = trace e1 @ map Received ls"
    by blast
  with left rd ln tr show ?case
    by (subst bestmove_loop.simps) simp
qed

lemma engine_bestmove_unfold:
  assumes "engine_bestmove msec t e left b = Inr r"
  shows "\<exists>r0. bestmove_loop msec (msec t + left) e (t + 1) left 0 b = Inr r0 \<and>
           (if found r0 then r = r0
            else \<exists>e1 e2. engine_writeln (engine r0) ''stop'' = Inr e1 \<and> drain_loop e1 = Inr e2 \<and>
                   r = r0\<lparr>engine := e2\<rparr>)"
  using assms
  by (auto simp: engine_bestmove_def Let_def bind_err_def split: sum.splits if_splits)

lemma loop_left_remaining:
  "loop_left msec (msec t + left) (t + 1) left j = remaining msec t left j"
  by (simp add: loop_left_def remaining_def)

lemma engine_bestmove_run:
  assumes "engine_bestmove msec t e left b = Inr r"
  shows "\<exists>pre. (\<forall>l\<in>set pre. bestmove_reply l = None) \<and>
         (\<forall>j<length pre. 0 \<le> remaining msec t left j) \<and>
         ((\<forall>l\<in>set pre. score_record l = []) \<longrightarrow> score r = 0) \<and>
         (if found r then
            \<exists>line. inp e = pre @ line # inp (engine r) \<and> bestmove_reply line = Some (best r) \<and>
                   0 \<le> remaining msec t left (length pre) \<and>
                   trace (engine r) = trace e @ map Received (pre @ [line])
          else remaining msec t left (length pre) < 0 \<and>
               timeLeft r = remaining msec t left (length pre) \<and> best r = b \<and>
               (\<exists>drained last. inp e = pre @ drained @ last # inp (engine r) \<and>
                  take 9 last = ''bestmove '' \<and> (\<forall>l\<in>set drained. take 9 l \<noteq> ''bestmove '') \<and>
                  trace (engine r) =
                    trace e @ map Received pre @ [Sent ''stop''] @ map Received drained @
                    [Received last]))"
proof -
  from engine_bestmove_unfold [OF assms] obtain r0 where
    lp: "bestmove_loop msec (msec t + left) e (t + 1) left 0 b = Inr r0"
    and fin: "if found r0 then r = r0
            else \<exists>e1 e2. engine_writeln (engine r0) ''stop'' = Inr e1 \<and> drain_loop e1 = Inr e2 \<and>
                   r = r0\<lparr>engine := e2\<rparr>"
    by blast
  from bestmove_loop_run [OF lp] obtain pre where
    p: "\<forall>l\<in>set pre. bestmove_reply l = None"
      "\<forall>j<length pre. 0 \<le> remaining msec t left j"
      "(\<forall>l\<in>set pre. score_record l = []) \<longrightarrow> score r0 = 0"
      "if found r0 then
            \<exists>line. inp e = pre @ line # inp (engine r0) \<and> bestmove_reply line = Some (best r0) \<and>
                   0 \<le> remaining msec t left (length pre) \<and>
                   trace (engine r0) = trace e @ map Received (pre @ [line])
          else inp e = pre @ inp (engine r0) \<and> remaining msec t left (length pre) < 0 \<and>
               timeLeft r0 = remaining msec t left (length pre) \<and> best r0 = b \<and>
               trace (engine r0) = trace e @ map Received pre"
    unfolding loop_left_remaining by blast
  show ?thesis
  proof (cases "found r0")
    case True
    with fin have "r = r0" by simp
    with True p show ?thesis by (intro exI [of _ pre]) simp
  next
    case False
    with fin obtain e1 e2 where w: "engine_writeln (engine r0) ''stop'' = Inr e1"
      and dr: "drain_loop e1 = Inr e2" and r: "r = r0\<lparr>engine := e2\<rparr>"
      by auto
    from drain_loop_run [OF dr] obtain drained last where
      d: "inp e1 = drained @ last # inp e2" "take 9 last = ''bestmove ''"
        "\<forall>l\<in>set drained. take 9 l \<noteq> ''bestmove ''"
        "trace e2 = trace e1 @ map Received (drained @ [last])"
      by blast
    note wr = engine_writeln_Inr [OF w]
    from False p(4) have q: "inp e = pre @ inp (engine r0)"
      "remaining msec t left (length pre) < 0"
      "timeLeft r0 = remaining msec t left (length pre)" "best r0 = b"
      "trace (engine r0) = trace e @ map Received pre"
      by simp_all
    have "inp e = pre @ drained @ last # inp (engine r) \<and>
          take 9 last = ''bestmove '' \<and> (\<forall>l\<in>set drained. take 9 l \<noteq> ''bestmove '') \<and>
          trace (engine r) =
            trace e @ map Received pre @ [Sent ''stop''] @ map Received drained @ [Received last]"
      using q d wr r by simp
    then have "\<exists>drained last. inp e = pre @ drained @ last # inp (engine r) \<and>
          take 9 last = ''bestmove '' \<and> (\<forall>l\<in>set drained. take 9 l \<noteq> ''bestmove '') \<and>
          trace (engine r) =
            trace e @ map Received pre @ [Sent ''stop''] @ map Received drained @ [Received last]"
      by blast
    with False r p(1,2,3) q show ?thesis
      by (intro exI [of _ pre]) simp
  qed
qed

lemma engine_bestmove_total:
  assumes "streams_ok e" and "inp e = pre @ drained @ lst # rest"
    and "\<forall>l\<in>set pre. bestmove_reply l = None \<and>
           (score_record l = [] \<or> (\<exists>v. score_value (score_record l) = Inr v))"
    and "\<forall>j<length pre. 0 \<le> remaining msec t left j"
    and "remaining msec t left (length pre) < 0"
    and "\<forall>l\<in>set drained. take 9 l \<noteq> ''bestmove ''" and "take 9 lst = ''bestmove ''"
  shows "\<exists>r. engine_bestmove msec t e left b = Inr r \<and> \<not> found r \<and> inp (engine r) = rest \<and>
           trace (engine r) =
             trace e @ map Received pre @ [Sent ''stop''] @ map Received drained @ [Received lst]"
proof -
  from assms(2) have i: "inp e = pre @ (drained @ lst # rest)" by simp
  from bestmove_loop_total [OF assms(1) i assms(3), of msec "msec t + left" "t + 1" left 0 b]
    assms(4,5)
  obtain r0 where lp: "bestmove_loop msec (msec t + left) e (t + 1) left 0 b = Inr r0"
    and nf: "\<not> found r0" and i0: "inp (engine r0) = drained @ lst # rest"
    and ok0: "streams_ok (engine r0)" and tr0: "trace (engine r0) = trace e @ map Received pre"
    unfolding loop_left_remaining by blast
  from engine_writeln_ok [OF ok0, of "''stop''"] obtain e1 where
    w: "engine_writeln (engine r0) ''stop'' = Inr e1" and ok1: "streams_ok e1"
    and i1: "inp e1 = inp (engine r0)" and tr1: "trace e1 = trace (engine r0) @ [Sent ''stop'']"
    by blast
  from i0 i1 have i1': "inp e1 = drained @ lst # rest" by simp
  from drain_loop_total [OF ok1 i1' assms(6,7)] obtain e2 where
    dr: "drain_loop e1 = Inr e2" and i2: "inp e2 = rest"
    and tr2: "trace e2 = trace e1 @ map Received drained @ [Received lst]"
    by blast
  have "engine_bestmove msec t e left b = Inr (r0\<lparr>engine := e2\<rparr>)"
    using lp nf w dr by (simp add: engine_bestmove_def Let_def bind_err_def)
  with nf i2 tr2 tr1 tr0 show ?thesis by simp
qed

lemma engine_bestmove_scoreless:
  assumes "engine_bestmove msec t e left b = Inr r"
    and "inp e = consumed @ inp (engine r)"
    and "\<forall>l\<in>set consumed. score_record l = []"
  shows "score r = 0"
proof -
  from engine_bestmove_run [OF assms(1)] obtain pre where
    s: "(\<forall>l\<in>set pre. score_record l = []) \<longrightarrow> score r = 0"
    and f: "found r \<Longrightarrow> \<exists>line. inp e = pre @ line # inp (engine r)"
    and n: "\<not> found r \<Longrightarrow> \<exists>drained last. inp e = pre @ drained @ last # inp (engine r)"
    by (cases "found r") auto
  have "\<exists>rest. inp e = (pre @ rest) @ inp (engine r)"
  proof (cases "found r")
    case True
    from f [OF True] obtain line where "inp e = pre @ line # inp (engine r)" by blast
    then have "inp e = (pre @ [line]) @ inp (engine r)" by simp
    then show ?thesis by blast
  next
    case False
    from n [OF False] obtain drained last where
      "inp e = pre @ drained @ last # inp (engine r)" by blast
    then have "inp e = (pre @ (drained @ [last])) @ inp (engine r)" by simp
    then show ?thesis by blast
  qed
  then obtain rest where "inp e = (pre @ rest) @ inp (engine r)" by blast
  with assms(2) have "consumed = pre @ rest" by simp
  with assms(3) s show ?thesis by simp
qed



subsection \<open>The outcome of a request\<close>

text \<open>
  C3, as amended. For a call of engine_bestmove that returns: it returns success exactly
  when the input holds a line whose first token is \<open>bestmove\<close> and that has a second token,
  no earlier line being such a line, and the budget is not below zero on entry and after
  each of the earlier lines; the second token is then the move, and the lines after it are
  left unread. It returns timeout when, before any such line, the budget is below zero on
  entry or after a line; a budget of exactly zero does not end the wait. A line whose first
  token is neither \<open>info\<close> nor \<open>bestmove\<close> changes neither the score nor the move nor the
  result. Tokens are separated by spaces.
\<close>

theorem engine_bestmove_outcome:
  assumes "engine_bestmove msec t e left b = Inr r"
  shows "(found r \<longleftrightarrow>
            (\<exists>pre line post. inp e = pre @ line # post \<and>
               (\<forall>l\<in>set pre. bestmove_reply l = None) \<and> bestmove_reply line \<noteq> None \<and>
               (\<forall>j\<le>length pre. 0 \<le> remaining msec t left j))) \<and>
         (found r \<longrightarrow>
            (\<exists>pre line. inp e = pre @ line # inp (engine r) \<and>
               (\<forall>l\<in>set pre. bestmove_reply l = None) \<and> bestmove_reply line = Some (best r))) \<and>
         (\<not> found r \<longrightarrow>
            (\<exists>pre post. inp e = pre @ post \<and> (\<forall>l\<in>set pre. bestmove_reply l = None) \<and>
               (\<forall>j<length pre. 0 \<le> remaining msec t left j) \<and>
               remaining msec t left (length pre) < 0 \<and>
               timeLeft r = remaining msec t left (length pre) \<and> best r = b)) \<and>
         (\<forall>line w ws sc bst. tokens line = w # ws \<and> w \<noteq> ''info'' \<and> w \<noteq> ''bestmove'' \<longrightarrow>
            bestmove_line line sc bst = Inr (False, sc, bst))"
proof -
  from engine_bestmove_run [OF assms] obtain pre where
    p: "\<forall>l\<in>set pre. bestmove_reply l = None"
      "\<forall>j<length pre. 0 \<le> remaining msec t left j"
    and f: "found r \<Longrightarrow>
            \<exists>line. inp e = pre @ line # inp (engine r) \<and> bestmove_reply line = Some (best r) \<and>
                   0 \<le> remaining msec t left (length pre)"
    and n: "\<not> found r \<Longrightarrow> remaining msec t left (length pre) < 0 \<and>
               timeLeft r = remaining msec t left (length pre) \<and> best r = b \<and>
               (\<exists>drained last. inp e = pre @ drained @ last # inp (engine r))"
    by (cases "found r") auto
  have A: "\<exists>pre line post. inp e = pre @ line # post \<and>
               (\<forall>l\<in>set pre. bestmove_reply l = None) \<and> bestmove_reply line \<noteq> None \<and>
               (\<forall>j\<le>length pre. 0 \<le> remaining msec t left j)" if "found r"
  proof -
    from f [OF that] obtain line where
      l: "inp e = pre @ line # inp (engine r)" "bestmove_reply line = Some (best r)"
        "0 \<le> remaining msec t left (length pre)" by blast
    have "\<forall>j\<le>length pre. 0 \<le> remaining msec t left j"
      using p(2) l(3) by (auto simp: le_less)
    with l p(1) show ?thesis
      by (intro exI [of _ pre] exI [of _ line] exI [of _ "inp (engine r)"]) simp
  qed
  have B: "found r" if ex: "\<exists>pre line post. inp e = pre @ line # post \<and>
               (\<forall>l\<in>set pre. bestmove_reply l = None) \<and> bestmove_reply line \<noteq> None \<and>
               (\<forall>j\<le>length pre. 0 \<le> remaining msec t left j)"
  proof (rule ccontr)
    assume nf: "\<not> found r"
    from ex obtain pre2 line2 post2 where
      q: "inp e = pre2 @ line2 # post2" "bestmove_reply line2 \<noteq> None"
        "\<forall>j\<le>length pre2. 0 \<le> remaining msec t left j" by blast
    from n [OF nf] obtain rest where
      m: "remaining msec t left (length pre) < 0" "inp e = pre @ rest" by auto
    from m(1) q(3) have "length pre2 < length pre"
      by (meson not_le_imp_less not_less)
    then have "pre ! length pre2 = inp e ! length pre2"
      using m(2) by (simp add: nth_append)
    also have "\<dots> = line2" using q(1) by simp
    finally have "line2 \<in> set pre"
      using \<open>length pre2 < length pre\<close> by (metis nth_mem)
    with p(1) q(2) show False by simp
  qed
  have C: "\<exists>pre line. inp e = pre @ line # inp (engine r) \<and>
               (\<forall>l\<in>set pre. bestmove_reply l = None) \<and> bestmove_reply line = Some (best r)"
    if "found r"
    using f [OF that] p(1) by blast
  have D: "\<exists>pre post. inp e = pre @ post \<and> (\<forall>l\<in>set pre. bestmove_reply l = None) \<and>
               (\<forall>j<length pre. 0 \<le> remaining msec t left j) \<and>
               remaining msec t left (length pre) < 0 \<and>
               timeLeft r = remaining msec t left (length pre) \<and> best r = b"
    if "\<not> found r"
    using n [OF that] p by blast
  have E: "\<forall>line w ws sc bst. tokens line = w # ws \<and> w \<noteq> ''info'' \<and> w \<noteq> ''bestmove'' \<longrightarrow>
            bestmove_line line sc bst = Inr (False, sc, bst)"
    by (simp add: bestmove_line_tokens)
  from A B C D E show ?thesis by blast
qed

theorem engine_bestmove_outcome_witness:
  "(\<exists>r. engine_bestmove demo_clock 0
          (demo_player [''info depth 1 score cp 20'', ''id name x'', ''bestmove e2e4 ponder e7e5'',
                        ''info late'']) 500 [] = Inr r \<and>
       found r \<and> best r = ''e2e4'' \<and> inp (engine r) = [''info late''] \<and>
       (\<exists>pre line. inp (demo_player [''info depth 1 score cp 20'', ''id name x'',
                        ''bestmove e2e4 ponder e7e5'', ''info late''])
                    = pre @ line # inp (engine r) \<and>
          (\<forall>l\<in>set pre. bestmove_reply l = None) \<and> bestmove_reply line = Some (best r))) \<and>
   (\<exists>r. engine_bestmove demo_clock 0 demo_searching 50 [] = Inr r \<and>
       \<not> found r \<and> timeLeft r = - 10 \<and>
       (\<exists>pre post. inp demo_searching = pre @ post \<and>
          (\<forall>l\<in>set pre. bestmove_reply l = None) \<and>
          (\<forall>j<length pre. 0 \<le> remaining demo_clock 0 50 j) \<and>
          remaining demo_clock 0 50 (length pre) < 0 \<and>
          timeLeft r = remaining demo_clock 0 50 (length pre) \<and> best r = [])) \<and>
   bestmove_line ''id name x'' 20 [] = Inr (False, 20, [])"
proof -
  let ?e = "demo_player [''info depth 1 score cp 20'', ''id name x'', ''bestmove e2e4 ponder e7e5'',
                        ''info late'']"
  have "map_sum id (\<lambda>r. (found r, best r, inp (engine r))) (engine_bestmove demo_clock 0 ?e 500 [])
          = Inr (True, ''e2e4'', [''info late''])"
    by code_simp
  then obtain r where run: "engine_bestmove demo_clock 0 ?e 500 [] = Inr r"
    and f: "found r" "best r = ''e2e4''" "inp (engine r) = [''info late'']"
    by (cases "engine_bestmove demo_clock 0 ?e 500 []") auto
  have "map_sum id (\<lambda>r. (found r, timeLeft r)) (engine_bestmove demo_clock 0 demo_searching 50 [])
          = Inr (False, - 10)"
    by code_simp
  then obtain r' where run': "engine_bestmove demo_clock 0 demo_searching 50 [] = Inr r'"
    and f': "\<not> found r'" "timeLeft r' = - 10"
    by (cases "engine_bestmove demo_clock 0 demo_searching 50 []") auto
  have tk: "tokens ''id name x'' = [''id'', ''name'', ''x'']"
    by code_simp
  from engine_bestmove_outcome [OF run] f(1) tk
  have A: "\<exists>pre line. inp ?e = pre @ line # inp (engine r) \<and>
          (\<forall>l\<in>set pre. bestmove_reply l = None) \<and> bestmove_reply line = Some (best r)"
    and B: "bestmove_line ''id name x'' 20 [] = Inr (False, 20, [])"
    by auto
  from engine_bestmove_outcome [OF run'] f'(1)
  have C: "\<exists>pre post. inp demo_searching = pre @ post \<and>
          (\<forall>l\<in>set pre. bestmove_reply l = None) \<and>
          (\<forall>j<length pre. 0 \<le> remaining demo_clock 0 50 j) \<and>
          remaining demo_clock 0 50 (length pre) < 0 \<and>
          timeLeft r' = remaining demo_clock 0 50 (length pre) \<and> best r' = []"
    by blast
  from run f A have "\<exists>r. engine_bestmove demo_clock 0 ?e 500 [] = Inr r \<and>
       found r \<and> best r = ''e2e4'' \<and> inp (engine r) = [''info late''] \<and>
       (\<exists>pre line. inp ?e = pre @ line # inp (engine r) \<and>
          (\<forall>l\<in>set pre. bestmove_reply l = None) \<and> bestmove_reply line = Some (best r))"
    by blast
  moreover from run' f' C have "\<exists>r. engine_bestmove demo_clock 0 demo_searching 50 [] = Inr r \<and>
       \<not> found r \<and> timeLeft r = - 10 \<and>
       (\<exists>pre post. inp demo_searching = pre @ post \<and>
          (\<forall>l\<in>set pre. bestmove_reply l = None) \<and>
          (\<forall>j<length pre. 0 \<le> remaining demo_clock 0 50 j) \<and>
          remaining demo_clock 0 50 (length pre) < 0 \<and>
          timeLeft r = remaining demo_clock 0 50 (length pre) \<and> best r = [])"
    by blast
  ultimately show ?thesis using B by blast
qed

text \<open>
  C3 as stated fails at a budget of zero: with a budget of 100 ms and a clock that shows
  100 ms after the first line, the budget has fallen to zero before the \<open>bestmove\<close> line
  arrives, and the call returns success, not timeout.
\<close>

theorem engine_bestmove_zero_counterexample:
  "remaining demo_slow_clock 0 100 1 = 0 \<and>
   bestmove_reply ''info depth 1'' = None \<and>
   bestmove_reply ''bestmove e2e4'' = Some ''e2e4'' \<and>
   map_sum id found
     (engine_bestmove demo_slow_clock 0 (demo_player [''info depth 1'', ''bestmove e2e4'']) 100 [])
     = Inr True \<and>
   map_sum id timeLeft
     (engine_bestmove demo_slow_clock 0 (demo_player [''info depth 1'', ''bestmove e2e4'']) 100 [])
     = Inr 0 \<and>
   map_sum id best
     (engine_bestmove demo_slow_clock 0 (demo_player [''info depth 1'', ''bestmove e2e4'']) 100 [])
     = Inr ''e2e4''"
  by code_simp

text \<open>
  C4. A call of engine_bestmove that returns timeout has read some lines, none of them a
  \<open>bestmove\<close> line with a move, then written \<open>stop\<close>, then read and discarded lines up to
  and including the first one that begins with \<open>bestmove\<close> and a space: the last thing on
  the streams at the return is that line, after the \<open>stop\<close>. And the call does return so:
  when the budget falls below zero after the lines \<open>pre\<close>, read without a move and without
  a fatal score record, and the engine then sends the lines \<open>drained\<close>, none with the
  prefix, and a line \<open>lst\<close> with it, the call writes \<open>stop\<close>, discards \<open>drained\<close>, stops
  at \<open>lst\<close> and returns timeout with the later lines unread.
\<close>

theorem engine_bestmove_timeout_drain:
  "(engine_bestmove msec t e left b = Inr r \<and> \<not> found r \<longrightarrow>
      (\<exists>pre drained last.
           inp e = pre @ drained @ last # inp (engine r) \<and>
           trace (engine r) =
             trace e @ map Received pre @ [Sent ''stop''] @ map Received drained @ [Received last] \<and>
           take 9 last = ''bestmove '' \<and>
           (\<forall>l\<in>set drained. take 9 l \<noteq> ''bestmove '') \<and>
           (\<forall>l\<in>set pre. bestmove_reply l = None))) \<and>
   (streams_ok e \<and> inp e = pre @ drained @ lst # rest \<and>
    (\<forall>l\<in>set pre. bestmove_reply l = None \<and>
           (score_record l = [] \<or> (\<exists>v. score_value (score_record l) = Inr v))) \<and>
    (\<forall>j<length pre. 0 \<le> remaining msec t left j) \<and>
    remaining msec t left (length pre) < 0 \<and>
    (\<forall>l\<in>set drained. take 9 l \<noteq> ''bestmove '') \<and> take 9 lst = ''bestmove '' \<longrightarrow>
      (\<exists>r. engine_bestmove msec t e left b = Inr r \<and> \<not> found r \<and> inp (engine r) = rest \<and>
           trace (engine r) =
             trace e @ map Received pre @ [Sent ''stop''] @ map Received drained @ [Received lst]))"
proof (intro conjI impI)
  assume a: "engine_bestmove msec t e left b = Inr r \<and> \<not> found r"
  then have run: "engine_bestmove msec t e left b = Inr r" and nf: "\<not> found r" by simp_all
  from engine_bestmove_run [OF run] nf obtain pre where
    p: "\<forall>l\<in>set pre. bestmove_reply l = None"
    and d: "\<exists>drained last. inp e = pre @ drained @ last # inp (engine r) \<and>
                  take 9 last = ''bestmove '' \<and> (\<forall>l\<in>set drained. take 9 l \<noteq> ''bestmove '') \<and>
                  trace (engine r) =
                    trace e @ map Received pre @ [Sent ''stop''] @ map Received drained @
                    [Received last]"
    by (auto simp del: append_Cons append_Nil)
  from d obtain drained last where
    "inp e = pre @ drained @ last # inp (engine r)" "take 9 last = ''bestmove ''"
    "\<forall>l\<in>set drained. take 9 l \<noteq> ''bestmove ''"
    "trace (engine r) =
       trace e @ map Received pre @ [Sent ''stop''] @ map Received drained @ [Received last]"
    by blast
  with p show "\<exists>pre drained last.
           inp e = pre @ drained @ last # inp (engine r) \<and>
           trace (engine r) =
             trace e @ map Received pre @ [Sent ''stop''] @ map Received drained @ [Received last] \<and>
           take 9 last = ''bestmove '' \<and>
           (\<forall>l\<in>set drained. take 9 l \<noteq> ''bestmove '') \<and>
           (\<forall>l\<in>set pre. bestmove_reply l = None)"
    by blast
next
  assume a: "streams_ok e \<and> inp e = pre @ drained @ lst # rest \<and>
    (\<forall>l\<in>set pre. bestmove_reply l = None \<and>
           (score_record l = [] \<or> (\<exists>v. score_value (score_record l) = Inr v))) \<and>
    (\<forall>j<length pre. 0 \<le> remaining msec t left j) \<and>
    remaining msec t left (length pre) < 0 \<and>
    (\<forall>l\<in>set drained. take 9 l \<noteq> ''bestmove '') \<and> take 9 lst = ''bestmove ''"
  then have h: "streams_ok e" "inp e = pre @ drained @ lst # rest"
    "\<forall>l\<in>set pre. bestmove_reply l = None \<and>
           (score_record l = [] \<or> (\<exists>v. score_value (score_record l) = Inr v))"
    "\<forall>j<length pre. 0 \<le> remaining msec t left j"
    "remaining msec t left (length pre) < 0"
    "\<forall>l\<in>set drained. take 9 l \<noteq> ''bestmove ''" "take 9 lst = ''bestmove ''"
    by blast+
  from engine_bestmove_total [OF h]
  show "\<exists>r. engine_bestmove msec t e left b = Inr r \<and> \<not> found r \<and> inp (engine r) = rest \<and>
           trace (engine r) =
             trace e @ map Received pre @ [Sent ''stop''] @ map Received drained @ [Received lst]" .
qed

theorem engine_bestmove_timeout_drain_witness:
  "\<exists>r. engine_bestmove demo_clock 0 demo_stopped 50 [] = Inr r \<and> \<not> found r \<and>
       inp (engine r) = [''x''] \<and>
       trace (engine r) =
         [Received ''info depth 1'', Sent ''stop'', Received ''info depth 2'',
          Received ''bestmove a''] \<and>
       (\<exists>pre drained last.
           inp demo_stopped = pre @ drained @ last # inp (engine r) \<and>
           trace (engine r) =
             trace demo_stopped @ map Received pre @ [Sent ''stop''] @ map Received drained @
             [Received last] \<and>
           take 9 last = ''bestmove '' \<and>
           (\<forall>l\<in>set drained. take 9 l \<noteq> ''bestmove '') \<and>
           (\<forall>l\<in>set pre. bestmove_reply l = None))"
proof -
  have ok: "streams_ok demo_stopped"
    and i: "inp demo_stopped = [''info depth 1''] @ [''info depth 2''] @ ''bestmove a'' # [''x'']"
    and tr: "trace demo_stopped = []"
    by (simp_all add: demo_stopped_def demo_player_def streams_ok_def)
  have p: "\<forall>l\<in>set [''info depth 1'']. bestmove_reply l = None \<and>
           (score_record l = [] \<or> (\<exists>v. score_value (score_record l) = Inr v))"
  proof -
    have "bestmove_reply ''info depth 1'' = None" "score_record ''info depth 1'' = []"
      by code_simp+
    then show ?thesis by simp
  qed
  have b1: "\<forall>j<length [''info depth 1'']. 0 \<le> remaining demo_clock 0 50 j"
    by (simp add: remaining_def)
  have b2: "remaining demo_clock 0 50 (length [''info depth 1'']) < 0"
    by (simp add: remaining_def demo_clock_def)
  have d: "\<forall>l\<in>set [''info depth 2'']. take 9 l \<noteq> ''bestmove ''"
    "take 9 ''bestmove a'' = ''bestmove ''"
    by simp_all
  from engine_bestmove_timeout_drain [of demo_clock 0 demo_stopped 50 "[]" _
      "[''info depth 1'']" "[''info depth 2'']" "''bestmove a''" "[''x'']"]
    ok i p b1 b2 d
  obtain r where run: "engine_bestmove demo_clock 0 demo_stopped 50 [] = Inr r"
    and nf: "\<not> found r" and rest: "inp (engine r) = [''x'']"
    and t: "trace (engine r) =
         trace demo_stopped @ map Received [''info depth 1''] @ [Sent ''stop''] @
         map Received [''info depth 2''] @ [Received ''bestmove a'']"
    by blast
  from t tr have t': "trace (engine r) =
         [Received ''info depth 1'', Sent ''stop'', Received ''info depth 2'',
          Received ''bestmove a'']"
    by simp
  from engine_bestmove_timeout_drain [of demo_clock 0 demo_stopped 50 "[]" r] run nf
  have "\<exists>pre drained last.
           inp demo_stopped = pre @ drained @ last # inp (engine r) \<and>
           trace (engine r) =
             trace demo_stopped @ map Received pre @ [Sent ''stop''] @ map Received drained @
             [Received last] \<and>
           take 9 last = ''bestmove '' \<and>
           (\<forall>l\<in>set drained. take 9 l \<noteq> ''bestmove '') \<and>
           (\<forall>l\<in>set pre. bestmove_reply l = None)"
    by blast
  with run nf rest t' show ?thesis by blast
qed

section \<open>Properties of game_play\<close>

subsection \<open>One iteration\<close>

lemma grown_simps [simp]:
  "pos (grown g) = pos g" "ply (grown g) = ply g" "result (grown g) = result g"
  "go (grown g) = go g"
  by (simp_all add: grown_def)


lemma adjudicate_Break:
  assumes "adjudicate ch s g moves reply = Break s'"
  shows "pos (game s') = pos g" and "ply (game s') = ply g"
    and "result (game s') \<in> {RESULT_ILLEGAL_MOVE, RESULT_DRAW_ADJUDICATION, RESULT_RESIGN}"
  using assms unfolding adjudicate_def Let_def
  by (auto split: prod.splits if_splits)

lemma game_step_cases:
  assumes "game_step ch msec budget goCmd s = Inr st"
  shows "\<exists>g2 res moves.
      (if played s \<noteq> 0 then apply_played ch (grown (game s)) (played s)
       else Inr (grown (game s))) = Inr g2 \<and>
      game_result ch g2 = Inr (res, moves) \<and>
      (if res \<noteq> RESULT_NONE then st = Break (s\<lparr>game := g2\<lparr>result := res\<rparr>\<rparr>)
       else \<exists>reply. request_move ch msec budget goCmd s (g2\<lparr>result := res\<rparr>) = Inr reply \<and>
              st = adjudicate ch s (g2\<lparr>result := res\<rparr>) moves reply)"
  using assms unfolding game_step_def grown_def [symmetric] Let_def
  by (auto simp: bind_err_Inr split: if_splits)


lemma game_step_Break:
  assumes "game_step ch msec budget goCmd s = Inr (Break s')"
  shows "\<exists>g2 res moves.
      (if played s \<noteq> 0 then apply_played ch (grown (game s)) (played s)
       else Inr (grown (game s))) = Inr g2 \<and>
      game_result ch g2 = Inr (res, moves) \<and>
      pos (game s') = pos g2 \<and> ply (game s') = ply g2 \<and>
      (result (game s') = res \<and> res \<noteq> RESULT_NONE \<or>
       res = RESULT_NONE \<and>
       result (game s') \<in> {RESULT_ILLEGAL_MOVE, RESULT_DRAW_ADJUDICATION, RESULT_RESIGN})"
proof -
  from game_step_cases [OF assms] obtain g2 res moves where
    a: "(if played s \<noteq> 0 then apply_played ch (grown (game s)) (played s)
         else Inr (grown (game s))) = Inr g2"
    and r: "game_result ch g2 = Inr (res, moves)"
    and c: "if res \<noteq> RESULT_NONE then Break s' = Break (s\<lparr>game := g2\<lparr>result := res\<rparr>\<rparr>)
       else \<exists>reply. request_move ch msec budget goCmd s (g2\<lparr>result := res\<rparr>) = Inr reply \<and>
              Break s' = adjudicate ch s (g2\<lparr>result := res\<rparr>) moves reply"
    by blast
  show ?thesis
  proof (cases "res = RESULT_NONE")
    case False
    with c have "s' = s\<lparr>game := g2\<lparr>result := res\<rparr>\<rparr>" by simp
    with a r False show ?thesis by auto
  next
    case True
    with c obtain reply where
      "adjudicate ch s (g2\<lparr>result := RESULT_NONE\<rparr>) moves reply = Break s'"
      by auto
    from adjudicate_Break [OF this] a r True show ?thesis by auto
  qed
qed

lemma game_result_range:
  assumes "game_result ch g = Inr (res, moves)"
  shows "ply g < length (pos g)"
    and "res \<in> {RESULT_NONE, RESULT_CHECKMATE, RESULT_STALEMATE, RESULT_THREEFOLD,
                RESULT_FIFTY_MOVES, RESULT_INSUFFICIENT_MATERIAL}"
  using assms by (auto simp: game_result_def Let_def split: if_splits)




lemma Break_result:
  assumes "game_step ch msec budget goCmd s = Inr (Break s')"
  shows "result (game s') \<in>
           {RESULT_CHECKMATE, RESULT_STALEMATE, RESULT_THREEFOLD, RESULT_FIFTY_MOVES,
            RESULT_INSUFFICIENT_MATERIAL, RESULT_ILLEGAL_MOVE, RESULT_DRAW_ADJUDICATION,
            RESULT_RESIGN}"
proof -
  from game_step_Break [OF assms] obtain g2 res moves where
    r: "game_result ch g2 = Inr (res, moves)"
    and c: "result (game s') = res \<and> res \<noteq> RESULT_NONE \<or>
       res = RESULT_NONE \<and>
       result (game s') \<in> {RESULT_ILLEGAL_MOVE, RESULT_DRAW_ADJUDICATION, RESULT_RESIGN}"
    by blast
  from game_result_range(2) [OF r] c show ?thesis by auto
qed

subsection \<open>The loop\<close>

lemma game_loop_cases:
  assumes "game_loop ch msec budget goCmd s = Inr s'"
  shows "game_step ch msec budget goCmd s = Inr (Break s') \<or>
         (\<exists>s1. game_step ch msec budget goCmd s = Inr (Next s1) \<and>
               game_loop ch msec budget goCmd s1 = Inr s')"
  using assms
  by (subst (asm) game_loop.simps) (auto split: sum.splits step.splits)

lemma game_loop_result:
  "game_loop ch msec budget goCmd s = Inr s' \<Longrightarrow>
   result (game s') \<in>
           {RESULT_CHECKMATE, RESULT_STALEMATE, RESULT_THREEFOLD, RESULT_FIFTY_MOVES,
            RESULT_INSUFFICIENT_MATERIAL, RESULT_ILLEGAL_MOVE, RESULT_DRAW_ADJUDICATION,
            RESULT_RESIGN}"
proof (induction ch msec budget goCmd s rule: game_loop.induct)
  case (1 ch msec budget goCmd s)
  from game_loop_cases [OF "1.prems"] show ?case
  proof (elim disjE exE conjE)
    assume "game_step ch msec budget goCmd s = Inr (Break s')"
    then show ?thesis by (rule Break_result)
  next
    fix s1
    assume "game_step ch msec budget goCmd s = Inr (Next s1)"
      and "game_loop ch msec budget goCmd s1 = Inr s'"
    then show ?thesis by (rule "1.IH" [OF _ refl])
  qed
qed




lemma game_play_cases:
  assumes "game_play ch msec t budget g first second = Inr s'"
  shows "\<exists>s0. game_begin g first second t = Inr s0 \<and>
           game_loop ch msec budget (go_command (go g) 0, go_command (go g) 1) s0 = Inr s' \<and>
           result (game s') \<noteq> RESULT_NONE"
  using assms unfolding game_play_def
  by (auto simp: bind_err_Inr split: if_splits)

subsection \<open>Finished games\<close>



text \<open>
  C1, as amended. game_play never stores \<open>RESULT_TIME_LOSS\<close>: whenever it returns, the
  result is one of the eight tags it assigns. Whether the request for a move timed out is
  not visible to it; the game goes on, or ends, on the move string and the score alone.
  The proof uses nothing about the request but that game_play receives a string and a
  score from it.
\<close>

theorem game_play_never_time_loss:
  assumes "game_play ch msec t budget g first second = Inr s'"
  shows "result (game s') \<noteq> RESULT_TIME_LOSS \<and>
         result (game s') \<in>
           {RESULT_CHECKMATE, RESULT_STALEMATE, RESULT_THREEFOLD, RESULT_FIFTY_MOVES,
            RESULT_INSUFFICIENT_MATERIAL, RESULT_ILLEGAL_MOVE, RESULT_DRAW_ADJUDICATION,
            RESULT_RESIGN}"
proof -
  from game_play_cases [OF assms] obtain s0 where
    "game_loop ch msec budget (go_command (go g) 0, go_command (go g) 1) s0 = Inr s'"
    by blast
  from game_loop_result [OF this] show ?thesis by auto
qed

theorem game_play_never_time_loss_witness:
  "\<exists>s'. game_play demo_chess demo_clock 0 (flat_budget 500)
            (game_new demo_chess ''b'' (demo_go\<lparr>resignCount := 1, resignScore := 300\<rparr>))
            (demo_player [''readyok'', ''info depth 1 score cp -350'', ''bestmove a''])
            (demo_player [])
          = Inr s' \<and>
        result (game s') = RESULT_RESIGN \<and> result (game s') \<noteq> RESULT_TIME_LOSS"
proof -
  let ?p = "game_play demo_chess demo_clock 0 (flat_budget 500)
            (game_new demo_chess ''b'' (demo_go\<lparr>resignCount := 1, resignScore := 300\<rparr>))
            (demo_player [''readyok'', ''info depth 1 score cp -350'', ''bestmove a''])
            (demo_player [])"
  have "map_sum id (\<lambda>s. result (game s)) ?p = Inr RESULT_RESIGN"
    by code_simp
  then obtain s' where p: "?p = Inr s'" and r: "result (game s') = RESULT_RESIGN"
    by (cases ?p) auto
  from game_play_never_time_loss [OF p] p r show ?thesis by blast
qed

text \<open>
  C1 as stated fails, the request being the modelled one: here the request of the first ply
  times out (the budget is 50 ms, the first line arrives after 60 ms), and the game does
  not end with \<open>RESULT_TIME_LOSS\<close>; it ends with \<open>RESULT_ILLEGAL_MOVE\<close>, the string of a
  request without a move being no legal move.
\<close>

theorem game_play_timeout_counterexample:
  "game_begin (game_new demo_chess ''w'' demo_go)
     (demo_player [''readyok'', ''info depth 1'', ''bestmove a'']) (demo_player []) 0
     = Inr demo_started \<and>
   request_move demo_chess demo_clock (flat_budget 50) (''go'', ''go'') demo_started
     (game demo_started) = game_bestmove demo_clock 0 demo_searching 50 \<and>
   map_sum id found (engine_bestmove demo_clock 0 demo_searching 50 []) = Inr False \<and>
   map_sum id (result \<circ> game)
     (game_play demo_chess demo_clock 0 (flat_budget 50) (game_new demo_chess ''w'' demo_go)
        (demo_player [''readyok'', ''info depth 1'', ''bestmove a'']) (demo_player []))
     = Inr RESULT_ILLEGAL_MOVE"
  by code_simp

subsection \<open>Scores and adjudication\<close>










text \<open>
  C10, as amended. When none of the lines read by a call of engine_bestmove is an \<open>info\<close>
  line with tokens after \<open>score\<close>, the score is 0 on return; with \<open>drawCount > 0\<close> and
  \<open>drawScore \<ge> 0\<close> the draw rule then adds one to its counter (and ends the game when the
  counter reaches \<open>2 * drawCount\<close>).
\<close>

theorem scoreless_draw_count:
  assumes "engine_bestmove msec t e left b = Inr r"
    and "inp e = consumed @ inp (engine r)"
    and "\<forall>l\<in>set consumed. score_record l = []"
    and "0 < sint (drawCount opts)"
    and "0 \<le> sint (drawScore opts)"
  shows "score r = 0 \<and>
         draw_adjudication opts (score r) dpc = (sint (2 * drawCount opts) \<le> sint (dpc + 1), dpc + 1)"
proof -
  from engine_bestmove_scoreless [OF assms(1,2,3)] have z: "score r = 0" .
  from assms(4) have "drawCount opts \<noteq> 0" by auto
  with assms(5) z show ?thesis
    by (simp add: draw_adjudication_def abs32_def)
qed

theorem scoreless_draw_count_witness:
  "\<exists>r. engine_bestmove demo_clock 0 (demo_player [''info depth 1'', ''bestmove a'', ''x'']) 500 []
         = Inr r \<and>
       inp (demo_player [''info depth 1'', ''bestmove a'', ''x''])
         = [''info depth 1'', ''bestmove a''] @ inp (engine r) \<and>
       score r = 0 \<and>
       draw_adjudication (demo_go\<lparr>drawCount := 3, drawScore := 10\<rparr>) (score r) 4 = (False, 5) \<and>
       draw_adjudication (demo_go\<lparr>drawCount := 3, drawScore := 10\<rparr>) (score r) 5 = (True, 6)"
proof -
  let ?e = "demo_player [''info depth 1'', ''bestmove a'', ''x'']"
  let ?o = "demo_go\<lparr>drawCount := 3, drawScore := 10\<rparr>"
  have "map_sum id (\<lambda>r. inp (engine r)) (engine_bestmove demo_clock 0 ?e 500 []) = Inr [''x'']"
    by code_simp
  then obtain r where run: "engine_bestmove demo_clock 0 ?e 500 [] = Inr r"
    and i: "inp (engine r) = [''x'']"
    by (cases "engine_bestmove demo_clock 0 ?e 500 []") auto
  have c: "inp ?e = [''info depth 1'', ''bestmove a''] @ inp (engine r)"
    using i by (simp add: demo_player_def)
  have s: "\<forall>l\<in>set [''info depth 1'', ''bestmove a'']. score_record l = []"
    by code_simp
  have o: "0 < sint (drawCount ?o)" "0 \<le> sint (drawScore ?o)"
    "sint (2 * drawCount ?o) \<le> sint (4 + 1 :: int32) \<longleftrightarrow> False"
    "sint (2 * drawCount ?o) \<le> sint (5 + 1 :: int32) \<longleftrightarrow> True"
    by code_simp+
  from scoreless_draw_count [OF run c s o(1,2), of 4] o(3)
  have A: "score r = 0" "draw_adjudication ?o (score r) 4 = (False, 5)"
    by auto
  from scoreless_draw_count [OF run c s o(1,2), of 5] o(4)
  have B: "draw_adjudication ?o (score r) 5 = (True, 6)"
    by auto
  from run c A B show ?thesis by blast
qed

text \<open>
  C10 as stated fails for a negative \<open>drawScore\<close>: with \<open>drawCount = 3\<close> and
  \<open>drawScore = - 1\<close> the score 0 of a ply without score does not satisfy
  \<open>|score| \<le> drawScore\<close>, and the counter goes back to 0.
\<close>

theorem scoreless_draw_count_counterexample:
  "0 < sint (drawCount (demo_go\<lparr>drawCount := 3, drawScore := - 1\<rparr>)) \<and>
   map_sum id score
     (engine_bestmove demo_clock 0 (demo_player [''info depth 1'', ''bestmove a'']) 500 []) = Inr 0 \<and>
   draw_adjudication (demo_go\<lparr>drawCount := 3, drawScore := - 1\<rparr>) 0 4 = (False, 0)"
  by code_simp

end
